theory Spec2Isabelle
  imports Complex_Main "HOL-Library.Sublist" "HOL-Library.Char_ord" "HOL-Library.List_Lexorder"
    "HOL-Library.Product_Lexorder"
begin

section \<open>Bantay Presyo Pro: the dashboard's view transforms\<close>

text \<open>
  The embedding follows the TypeScript of the presentation layer: the types
  (\<^verbatim>\<open>@/types\<close>) and the hooks (\<^verbatim>\<open>@/hooks/useData\<close>), both found in the sources after
  \<^verbatim>\<open>app/src/sections/CategoryOverview.tsx\<close>, and the sections
  \<^verbatim>\<open>VolatilityAnalysis.tsx\<close>, \<^verbatim>\<open>MarketComparison.tsx\<close> and
  \<^verbatim>\<open>CommodityComparison.tsx\<close>. The documents the browser reads are JSON, so every
  number of a dashboard item is a finite double; a field holds its value, a rational
  (\<^typ>\<open>rat\<close>). A field typed \<^verbatim>\<open>number | null\<close> is a \<^typ>\<open>rat option\<close>, \<^verbatim>\<open>null\<close> being
  \<^const>\<open>None\<close>. Arithmetic on numbers is the arithmetic of IEEE 754 doubles, with its
  rounding, modelled below. Strings are lists of 8-bit characters, the code units of
  Latin-1.
\<close>

subsection \<open>Data model (\<^verbatim>\<open>types/index.ts\<close>)\<close>

record PriceTrend =
  date :: string
  price :: rat

record DashboardItem =
  region :: string
  category :: string
  commodity :: string
  unit :: string
  latest_price :: rat
  latest_date :: string
  ma_7 :: "rat option"
  ma_30 :: "rat option"
  change_pct_7_day :: "rat option"
  change_pct_30_day :: "rat option"
  volatility_score :: string
  volatility_value :: "rat option"
  momentum :: rat
  trend :: "PriceTrend list"

subsection \<open>String helpers of the host language\<close>

text \<open>
  \<^verbatim>\<open>String.prototype.toLowerCase\<close> on the code units of Latin-1: the letters \<open>A\<close> to \<open>Z\<close>
  and the accented capitals \<open>0xC0\<close> to \<open>0xDE\<close>, without the multiplication sign \<open>0xD7\<close>,
  are moved to their small letters, 32 code units further; every other code unit stays.
\<close>

definition toLowerChar :: "char \<Rightarrow> char" where
  "toLowerChar c =
     (let n = (of_char c :: nat) in
      if (65 \<le> n \<and> n \<le> 90) \<or> (192 \<le> n \<and> n \<le> 214) \<or> (216 \<le> n \<and> n \<le> 222)
      then char_of (n + 32) else c)"

definition toLowerCase :: "string \<Rightarrow> string" where
  "toLowerCase s = map toLowerChar s"

text \<open>\<^verbatim>\<open>s.startsWith(q)\<close> and \<^verbatim>\<open>s.includes(q)\<close>: \<open>q\<close> occurs in \<open>s\<close> as a contiguous run.\<close>

fun startsWith :: "string \<Rightarrow> string \<Rightarrow> bool" where
  "startsWith s [] = True"
| "startsWith [] (c # q) = False"
| "startsWith (d # s) (c # q) = (d = c \<and> startsWith s q)"

fun includes_str :: "string \<Rightarrow> string \<Rightarrow> bool" where
  "includes_str [] q = (q = [])"
| "includes_str (d # s) q = (startsWith (d # s) q \<or> includes_str s q)"

text \<open>A string is truthy when it is not empty; an absent optional field is falsy.\<close>

fun truthy :: "string option \<Rightarrow> bool" where
  "truthy None = False"
| "truthy (Some s) = (s \<noteq> [])"

subsection \<open>\<^verbatim>\<open>useFilteredDashboard\<close> (\<^verbatim>\<open>hooks/useData\<close>)\<close>

record Filters =
  f_region :: "string option"
  f_category :: "string option"
  f_search :: "string option"

text \<open>The predicate handed to \<^verbatim>\<open>dashboard.filter\<close>, with its three early returns in order.\<close>

definition keepItem :: "Filters \<Rightarrow> DashboardItem \<Rightarrow> bool" where
  "keepItem filters item =
     (if truthy (f_region filters) \<and> f_region filters \<noteq> Some ''All Regions''
           \<and> Some (region item) \<noteq> f_region filters then False
      else if truthy (f_category filters) \<and> f_category filters \<noteq> Some ''All Categories''
           \<and> Some (category item) \<noteq> f_category filters then False
      else if truthy (f_search filters) then
        (let searchLower = toLowerCase (the (f_search filters))
         in includes_str (toLowerCase (commodity item)) searchLower
            \<or> includes_str (toLowerCase (region item)) searchLower)
      else True)"

definition useFilteredDashboard :: "DashboardItem list \<Rightarrow> Filters \<Rightarrow> DashboardItem list" where
  "useFilteredDashboard dashboard filters = filter (keepItem filters) dashboard"

subsection \<open>\<^verbatim>\<open>Array.prototype.sort\<close> with a comparator\<close>

text \<open>
  A comparator returns a number, of which \<^verbatim>\<open>sort\<close> uses the sign. ECMAScript calls a
  comparator consistent for the elements of an array when, with \<open>a =\<^sub>C b\<close> for
  \<open>cmp a b = 0\<close>, \<open>a <\<^sub>C b\<close> for \<open>cmp a b < 0\<close> and \<open>a >\<^sub>C b\<close> for \<open>cmp a b > 0\<close>, the relation
  \<open>=\<^sub>C\<close> is reflexive, symmetric and transitive and the relations \<open><\<^sub>C\<close> and \<open>>\<^sub>C\<close> are
  transitive.
\<close>

definition consistent_on :: "('a \<Rightarrow> 'a \<Rightarrow> rat) \<Rightarrow> 'a list \<Rightarrow> bool" where
  "consistent_on cmp xs =
     (\<forall>a \<in> set xs. \<forall>b \<in> set xs. \<forall>c \<in> set xs.
        cmp a a = 0
        \<and> (cmp a b = 0 \<longrightarrow> cmp b a = 0)
        \<and> (cmp a b = 0 \<and> cmp b c = 0 \<longrightarrow> cmp a c = 0)
        \<and> (cmp a b < 0 \<and> cmp b c < 0 \<longrightarrow> cmp a c < 0)
        \<and> (cmp a b > 0 \<and> cmp b c > 0 \<longrightarrow> cmp a c > 0))"

text \<open>
  For a consistent comparator ECMAScript prescribes the result: the elements in the
  comparator's order, elements that compare equal in their input order. The stable
  insertion sort computes it: an element is placed in front of the first element it
  does not compare greater than, and the elements are inserted from the right.
\<close>

fun insert_by :: "('a \<Rightarrow> 'a \<Rightarrow> rat) \<Rightarrow> 'a \<Rightarrow> 'a list \<Rightarrow> 'a list" where
  "insert_by cmp x [] = [x]"
| "insert_by cmp x (y # ys) =
     (if cmp x y \<le> 0 then x # y # ys else y # insert_by cmp x ys)"

text \<open>
  For a comparator that is not consistent the order is left to the engine. What the
  engine then does is the parameter \<open>engine\<close> of the model, of which nothing is assumed.
\<close>

definition js_sort ::
  "(('a \<Rightarrow> 'a \<Rightarrow> rat) \<Rightarrow> 'a list \<Rightarrow> 'a list) \<Rightarrow> ('a \<Rightarrow> 'a \<Rightarrow> rat) \<Rightarrow> 'a list \<Rightarrow> 'a list" where
  "js_sort engine cmp xs =
     (if consistent_on cmp xs then foldr (insert_by cmp) xs [] else engine cmp xs)"

subsection \<open>\<^verbatim>\<open>mostVolatile\<close> and \<^verbatim>\<open>leastVolatile\<close> (\<^verbatim>\<open>sections/VolatilityAnalysis.tsx\<close>)\<close>

text \<open>\<^verbatim>\<open>v || 0\<close> on a \<^verbatim>\<open>number | null\<close>: \<^verbatim>\<open>null\<close> and \<^verbatim>\<open>0\<close> are falsy.\<close>

fun orZero :: "rat option \<Rightarrow> rat" where
  "orZero None = 0"
| "orZero (Some v) = (if v = 0 then 0 else v)"

text \<open>
  The comparators subtract two doubles. The difference of two doubles is rounded, but
  never to zero when they differ, and never to the other sign (lemma
  \<open>double_difference_sign\<close> below), so its sign, which is all that \<^verbatim>\<open>sort\<close> reads, is
  the sign of the exact difference that the model takes.
\<close>

definition mostVolatile ::
  "((DashboardItem \<Rightarrow> DashboardItem \<Rightarrow> rat) \<Rightarrow> DashboardItem list \<Rightarrow> DashboardItem list)
     \<Rightarrow> DashboardItem list \<Rightarrow> DashboardItem list" where
  "mostVolatile engine dashboard =
     take 10
       (js_sort engine (\<lambda>a b. orZero (volatility_value b) - orZero (volatility_value a))
          (filter (\<lambda>d. volatility_value d \<noteq> None) dashboard))"

definition leastVolatile ::
  "((DashboardItem \<Rightarrow> DashboardItem \<Rightarrow> rat) \<Rightarrow> DashboardItem list \<Rightarrow> DashboardItem list)
     \<Rightarrow> DashboardItem list \<Rightarrow> DashboardItem list" where
  "leastVolatile engine dashboard =
     take 10
       (js_sort engine (\<lambda>a b. orZero (volatility_value a) - orZero (volatility_value b))
          (filter (\<lambda>d. volatility_value d \<noteq> None) dashboard))"

subsection \<open>Numbers: IEEE 754 doubles\<close>

text \<open>
  A number is a finite double, one of the two infinities, or \<^verbatim>\<open>NaN\<close>. A finite double
  is given by its value, a rational. The sign of zero is not modelled: it shows only in
  a division by zero, and the code divides by lengths, by counts, by 100 and by a
  minimum that is greater than zero.
\<close>

datatype jsnum = Fin rat | PosInf | NegInf | NaN

text \<open>
  The exponent \<open>e\<close> of a positive \<open>x\<close>, with \<open>2\<^sup>e \<le> x < 2\<^sup>e\<^sup>+\<^sup>1\<close>, is found by
  binary search: \<open>exponent_of\<close> divides a number that is at least 1 by the powers
  \<open>2\<^sup>1\<^sup>0\<^sup>2\<^sup>4\<close>, \<open>2\<^sup>5\<^sup>1\<^sup>2\<close>, ..., \<open>2\<close> that do not exceed it and adds up their exponents.
\<close>

fun exponent_of :: "nat list \<Rightarrow> rat \<Rightarrow> nat" where
  "exponent_of [] y = 0"
| "exponent_of (s # ss) y =
     (if 2 ^ s \<le> y then s + exponent_of ss (y / 2 ^ s) else exponent_of ss y)"

definition shifts :: "nat list" where
  "shifts = [1024, 512, 256, 128, 64, 32, 16, 8, 4, 2, 1]"

text \<open>
  In such a list every exponent is one more than the sum of those after it, which is
  what makes the search exact.
\<close>

fun halving :: "nat list \<Rightarrow> bool" where
  "halving [] = True"
| "halving (s # ss) = (s = sum_list ss + 1 \<and> halving ss)"

definition pow2 :: "int \<Rightarrow> rat" where
  "pow2 e = (if 0 \<le> e then 2 ^ nat e else 1 / 2 ^ nat (- e))"

definition ilog2 :: "rat \<Rightarrow> int" where
  "ilog2 x =
     (if 1 \<le> x then int (exponent_of shifts x)
      else (let e = int (exponent_of shifts (1 / x))
            in if x = pow2 (- e) then - e else - e - 1))"

text \<open>The integer nearest to a rational that is not negative, a half going to the even one.\<close>

definition roundHalfEven :: "rat \<Rightarrow> int" where
  "roundHalfEven y =
     (let f = \<lfloor>y\<rfloor>; d = y - of_int f in
      if d < 1 / 2 then f else if 1 / 2 < d then f + 1 else if even f then f else f + 1)"

text \<open>
  \<open>fl x\<close> is the double nearest to the rational \<open>x\<close> (round to nearest, ties to even),
  the result of every arithmetic operation whose exact result is \<open>x\<close>. A double has 53
  significant bits, so the doubles around \<open>x\<close> are the multiples of \<open>u = 2\<^sup>e\<^sup>-\<^sup>5\<^sup>2\<close> where
  \<open>e\<close> is the exponent of \<open>\<bar>x\<bar>\<close>; below \<open>2\<^sup>-\<^sup>1\<^sup>0\<^sup>2\<^sup>2\<close> they are the multiples of
  \<open>2\<^sup>-\<^sup>1\<^sup>0\<^sup>7\<^sup>4\<close> (subnormal numbers), and a result of magnitude \<open>2\<^sup>1\<^sup>0\<^sup>2\<^sup>4\<close> or more
  overflows to an infinity.
\<close>

definition fl :: "rat \<Rightarrow> jsnum" where
  "fl x =
     (if x = 0 then Fin 0
      else
        (let e = max (ilog2 \<bar>x\<bar>) (- 1022);
             u = pow2 (e - 52);
             r = of_int (roundHalfEven (\<bar>x\<bar> / u)) * u
         in if pow2 1024 \<le> r then (if 0 < x then PosInf else NegInf)
            else Fin (if 0 < x then r else - r)))"

text \<open>A rational is the value of a double when rounding leaves it as it is.\<close>

definition isDouble :: "rat \<Rightarrow> bool" where
  "isDouble x = (fl x = Fin x)"


fun js_neg :: "jsnum \<Rightarrow> jsnum" where
  "js_neg (Fin a) = Fin (- a)"
| "js_neg PosInf = NegInf"
| "js_neg NegInf = PosInf"
| "js_neg NaN = NaN"

fun js_add :: "jsnum \<Rightarrow> jsnum \<Rightarrow> jsnum" where
  "js_add (Fin a) (Fin b) = fl (a + b)"
| "js_add NaN b = NaN"
| "js_add a NaN = NaN"
| "js_add PosInf NegInf = NaN"
| "js_add NegInf PosInf = NaN"
| "js_add PosInf b = PosInf"
| "js_add a PosInf = PosInf"
| "js_add NegInf b = NegInf"
| "js_add a NegInf = NegInf"

definition js_sub :: "jsnum \<Rightarrow> jsnum \<Rightarrow> jsnum" where
  "js_sub a b = js_add a (js_neg b)"

text \<open>The sign of a number other than \<^verbatim>\<open>NaN\<close>, and the infinity of a given sign.\<close>

fun sign_of :: "jsnum \<Rightarrow> rat" where
  "sign_of (Fin a) = sgn a"
| "sign_of PosInf = 1"
| "sign_of NegInf = - 1"
| "sign_of NaN = 0"

definition inf_of_sign :: "rat \<Rightarrow> jsnum" where
  "inf_of_sign s = (if 0 < s then PosInf else if s < 0 then NegInf else NaN)"

fun js_mul :: "jsnum \<Rightarrow> jsnum \<Rightarrow> jsnum" where
  "js_mul (Fin a) (Fin b) = fl (a * b)"
| "js_mul NaN b = NaN"
| "js_mul a NaN = NaN"
| "js_mul a b = inf_of_sign (sign_of a * sign_of b)"

text \<open>
  Division never raises: a finite non-zero value divided by zero is an infinity, of the
  sign of the dividend for the zero without sign, and \<open>0 / 0\<close> and \<open>\<infinity> / \<infinity>\<close> are
  \<^verbatim>\<open>NaN\<close>.
\<close>

fun js_div :: "jsnum \<Rightarrow> jsnum \<Rightarrow> jsnum" where
  "js_div (Fin a) (Fin b) = (if b = 0 then inf_of_sign (sgn a) else fl (a / b))"
| "js_div NaN b = NaN"
| "js_div a NaN = NaN"
| "js_div (Fin a) b = Fin 0"
| "js_div a (Fin b) = inf_of_sign (sign_of a * (if b < 0 then - 1 else 1))"
| "js_div a b = NaN"

text \<open>\<^verbatim>\<open>a < b\<close>, false when either side is \<^verbatim>\<open>NaN\<close>.\<close>

fun js_less :: "jsnum \<Rightarrow> jsnum \<Rightarrow> bool" where
  "js_less (Fin a) (Fin b) = (a < b)"
| "js_less NaN b = False"
| "js_less a NaN = False"
| "js_less a NegInf = False"
| "js_less NegInf b = True"
| "js_less PosInf b = False"
| "js_less a PosInf = True"

definition js_le :: "jsnum \<Rightarrow> jsnum \<Rightarrow> bool" where
  "js_le a b = (a \<noteq> NaN \<and> b \<noteq> NaN \<and> (js_less a b \<or> a = b))"

text \<open>
  \<^verbatim>\<open>Math.min(...xs)\<close> and \<^verbatim>\<open>Math.max(...xs)\<close>: \<^verbatim>\<open>NaN\<close> if an argument is, and
  \<open>+\<infinity>\<close> and \<open>-\<infinity>\<close> when there is no argument.
\<close>

definition min2 :: "jsnum \<Rightarrow> jsnum \<Rightarrow> jsnum" where
  "min2 a b = (if a = NaN \<or> b = NaN then NaN else if js_less b a then b else a)"

definition max2 :: "jsnum \<Rightarrow> jsnum \<Rightarrow> jsnum" where
  "max2 a b = (if a = NaN \<or> b = NaN then NaN else if js_less a b then b else a)"

definition Math_min :: "jsnum list \<Rightarrow> jsnum" where
  "Math_min xs = foldl min2 PosInf xs"

definition Math_max :: "jsnum list \<Rightarrow> jsnum" where
  "Math_max xs = foldl max2 NegInf xs"


text \<open>\<^verbatim>\<open>xs.reduce((a, b) => a + b, 0)\<close>: the sum from the left, every addition rounded.\<close>

definition js_sum :: "jsnum list \<Rightarrow> jsnum" where
  "js_sum xs = foldl js_add (Fin 0) xs"

subsection \<open>\<^verbatim>\<open>useCategoryStats\<close> (\<^verbatim>\<open>hooks/useData\<close>)\<close>









subsection \<open>\<^verbatim>\<open>parseFloat\<close>\<close>

text \<open>
  \<^verbatim>\<open>parseFloat\<close> skips leading white space and reads the longest prefix of the rest that
  is a \<^verbatim>\<open>StrDecimalLiteral\<close>: an optional sign, then \<^verbatim>\<open>Infinity\<close>, or digits with an
  optional fraction, or a point followed by digits, each with an optional exponent.
  Whatever follows the prefix is ignored; without such a prefix the result is \<^verbatim>\<open>NaN\<close>.
  The result is the decimal value of the prefix rounded to the nearest double. (For a
  literal of more than 20 significant digits ECMAScript lets an engine round a
  neighbouring decimal instead; the engines in use round the value itself.)
\<close>

definition isWhiteSpace :: "char \<Rightarrow> bool" where
  "isWhiteSpace c = (c \<in> set [CHR 0x09, CHR 0x0A, CHR 0x0B, CHR 0x0C, CHR 0x0D, CHR 0x20, CHR 0xA0])"

definition isDigit :: "char \<Rightarrow> bool" where
  "isDigit c = (c \<in> set ''0123456789'')"

definition digitVal :: "char \<Rightarrow> nat" where
  "digitVal c = of_char c - 48"

definition digitsVal :: "string \<Rightarrow> nat" where
  "digitsVal ds = foldl (\<lambda>a c. 10 * a + digitVal c) 0 ds"

text \<open>An optional sign and at least one digit, as they follow the \<^verbatim>\<open>e\<close> of an exponent.\<close>

definition signedDigits :: "string \<Rightarrow> int option" where
  "signedDigits t =
     (case t of
        [] \<Rightarrow> None
      | c # u \<Rightarrow>
          if c = CHR ''-'' then
            (if takeWhile isDigit u = [] then None
             else Some (- int (digitsVal (takeWhile isDigit u))))
          else if c = CHR ''+'' then
            (if takeWhile isDigit u = [] then None
             else Some (int (digitsVal (takeWhile isDigit u))))
          else if takeWhile isDigit t = [] then None
          else Some (int (digitsVal (takeWhile isDigit t))))"

text \<open>The exponent read at the head of \<open>r\<close>; \<open>0\<close> when \<open>r\<close> does not start with one.\<close>

definition exponentPart :: "string \<Rightarrow> int" where
  "exponentPart r =
     (case r of
        [] \<Rightarrow> 0
      | c # t \<Rightarrow>
          if c = CHR ''e'' \<or> c = CHR ''E'' then
            (case signedDigits t of None \<Rightarrow> 0 | Some e \<Rightarrow> e)
          else 0)"

definition scale10 :: "rat \<Rightarrow> int \<Rightarrow> rat" where
  "scale10 m e = (if 0 \<le> e then m * 10 ^ nat e else m / 10 ^ nat (- e))"

definition strUnsignedDecimalLiteral :: "string \<Rightarrow> jsnum" where
  "strUnsignedDecimalLiteral t =
     (if startsWith t ''Infinity'' then PosInf
      else
        (let ip = takeWhile isDigit t;
             r1 = dropWhile isDigit t;
             fp = (case r1 of [] \<Rightarrow> [] | c # u \<Rightarrow> if c = CHR ''.'' then takeWhile isDigit u else []);
             r2 = (case r1 of [] \<Rightarrow> [] | c # u \<Rightarrow> if c = CHR ''.'' then dropWhile isDigit u else r1)
         in if ip = [] \<and> fp = [] then NaN
            else fl (scale10 (of_nat (digitsVal ip) + of_nat (digitsVal fp) / 10 ^ length fp)
                       (exponentPart r2))))"

definition parseFloat :: "string \<Rightarrow> jsnum" where
  "parseFloat s =
     (case dropWhile isWhiteSpace s of
        [] \<Rightarrow> NaN
      | c # u \<Rightarrow>
          if c = CHR ''-'' then js_neg (strUnsignedDecimalLiteral u)
          else if c = CHR ''+'' then strUnsignedDecimalLiteral u
          else strUnsignedDecimalLiteral (c # u))"

subsection \<open>\<^verbatim>\<open>parsePrice\<close> and \<^verbatim>\<open>getPriceStats\<close> (\<^verbatim>\<open>sections/MarketComparison.tsx\<close>)\<close>

text \<open>\<^verbatim>\<open>raw.replace(/,/g, "")\<close> deletes every comma.\<close>

definition removeCommas :: "string \<Rightarrow> string" where
  "removeCommas raw = filter (\<lambda>c. c \<noteq> CHR '','') raw"

definition parsePrice :: "string \<Rightarrow> jsnum option" where
  "parsePrice raw =
     (if raw = [] \<or> raw = ''N/A'' then None
      else (let n = parseFloat (removeCommas raw) in if n = NaN then None else Some n))"

record PriceStats =
  stat_min :: jsnum
  stat_max :: jsnum
  stat_avg :: jsnum
  stat_spread :: jsnum
  stat_count :: nat

text \<open>The numbers of a row: \<^verbatim>\<open>prices.map(parsePrice).filter(n => n !== null)\<close>.\<close>

definition parsedPrices :: "string list \<Rightarrow> jsnum list" where
  "parsedPrices prices = map the (filter (\<lambda>n. n \<noteq> None) (map parsePrice prices))"

definition getPriceStats :: "string list \<Rightarrow> PriceStats option" where
  "getPriceStats prices =
     (let nums = parsedPrices prices in
      if length nums = 0 then None
      else
        (let mn = Math_min nums;
             mx = Math_max nums;
             avg = js_div (js_sum nums) (Fin (of_nat (length nums)));
             spread = (if js_less (Fin 0) mn
                       then js_mul (js_div (js_sub mx mn) mn) (Fin 100)
                       else Fin 0)
         in Some \<lparr>stat_min = mn, stat_max = mx, stat_avg = avg, stat_spread = spread,
                  stat_count = length nums\<rparr>))"

subsection \<open>The price parser as the specification words it\<close>

text \<open>
  The specification's reading of a price cell, for comparison with \<^const>\<open>parsePrice\<close>:
  a cell that is empty or the marker is null; otherwise the commas are removed and the
  rest is a decimal number as a whole (an optional minus sign, digits, and optionally a
  point followed by digits), of which the value is returned, as the double nearest to
  it; a rest that is not a decimal number is unparsable and gives null.
\<close>

definition spec_unsignedDecimal :: "string \<Rightarrow> rat option" where
  "spec_unsignedDecimal t =
     (let ip = takeWhile isDigit t; r = dropWhile isDigit t in
      if ip = [] then None
      else if r = [] then Some (of_nat (digitsVal ip))
      else if hd r = CHR ''.'' \<and> tl r \<noteq> [] \<and> list_all isDigit (tl r)
        then Some (of_nat (digitsVal ip) + of_nat (digitsVal (tl r)) / 10 ^ length (tl r))
      else None)"

definition spec_decimalValue :: "string \<Rightarrow> rat option" where
  "spec_decimalValue t =
     (case t of
        [] \<Rightarrow> None
      | c # u \<Rightarrow>
          if c = CHR ''-'' then map_option uminus (spec_unsignedDecimal u)
          else spec_unsignedDecimal t)"

definition spec_parsePrice :: "string \<Rightarrow> jsnum option" where
  "spec_parsePrice s =
     (if s = [] \<or> s = ''N/A'' then None
      else map_option fl (spec_decimalValue (removeCommas s)))"

text \<open>
  The strings in which \<^const>\<open>parseFloat\<close> finds a number, described without running the
  parser: after the white space and an optional sign comes \<^verbatim>\<open>Infinity\<close>, a digit, or a
  point and a digit.
\<close>

definition startsNumber :: "string \<Rightarrow> bool" where
  "startsNumber u =
     (startsWith u ''Infinity''
      \<or> (case u of
            [] \<Rightarrow> False
          | c # v \<Rightarrow> isDigit c \<or> (c = CHR ''.'' \<and> (case v of [] \<Rightarrow> False | d # w \<Rightarrow> isDigit d))))"

definition hasNumericPrefix :: "string \<Rightarrow> bool" where
  "hasNumericPrefix t =
     (case dropWhile isWhiteSpace t of
        [] \<Rightarrow> False
      | c # u \<Rightarrow> if c = CHR ''-'' \<or> c = CHR ''+'' then startsNumber u else startsNumber (c # u))"

text \<open>
  The number literals of the grammar, written down apart from the parser: the digits
  before the point, the digits after the point when there is a point, and the exponent
  when there is one, that is its letter, its sign and its digits. A literal is well
  formed when the digits are digits, there is a digit before the point or, with a point,
  after it, and the exponent has a digit. Its text is what the grammar derives, and its
  value is the decimal number the text denotes.
\<close>

record NumberLiteral =
  intDigits :: string
  fracDigits :: "string option"
  expPart :: "(char \<times> string \<times> string) option"

definition isSign :: "string \<Rightarrow> bool" where
  "isSign sg = (sg = [] \<or> sg = ''+'' \<or> sg = ''-'')"

definition wellFormed :: "NumberLiteral \<Rightarrow> bool" where
  "wellFormed l =
     (list_all isDigit (intDigits l)
      \<and> (case fracDigits l of
            None \<Rightarrow> intDigits l \<noteq> []
          | Some fp \<Rightarrow> list_all isDigit fp \<and> (intDigits l \<noteq> [] \<or> fp \<noteq> []))
      \<and> (case expPart l of
            None \<Rightarrow> True
          | Some (c, sg, ds) \<Rightarrow>
              (c = CHR ''e'' \<or> c = CHR ''E'') \<and> isSign sg \<and> ds \<noteq> [] \<and> list_all isDigit ds))"

definition literalText :: "NumberLiteral \<Rightarrow> string" where
  "literalText l =
     intDigits l
     @ (case fracDigits l of None \<Rightarrow> [] | Some fp \<Rightarrow> CHR ''.'' # fp)
     @ (case expPart l of None \<Rightarrow> [] | Some (c, sg, ds) \<Rightarrow> c # sg @ ds)"

definition literalValue :: "NumberLiteral \<Rightarrow> rat" where
  "literalValue l =
     scale10
       (of_nat (digitsVal (intDigits l))
        + (case fracDigits l of
             None \<Rightarrow> 0
           | Some fp \<Rightarrow> of_nat (digitsVal fp) / 10 ^ length fp))
       (case expPart l of
          None \<Rightarrow> 0
        | Some (c, sg, ds) \<Rightarrow> if sg = ''-'' then - int (digitsVal ds) else int (digitsVal ds))"

text \<open>
  The text after a literal does not continue it: it does not go on with a digit; after a
  literal without exponent it does not go on with an exponent, that is \<open>e\<close> or \<open>E\<close>, an
  optional sign and a digit; after a literal without point it does not go on with a
  point.
\<close>

definition noDigitAhead :: "string \<Rightarrow> bool" where
  "noDigitAhead r = (case r of [] \<Rightarrow> True | c # t \<Rightarrow> \<not> isDigit c)"

definition startsExponent :: "string \<Rightarrow> bool" where
  "startsExponent r =
     (case r of
        [] \<Rightarrow> False
      | c # t \<Rightarrow>
          (c = CHR ''e'' \<or> c = CHR ''E'')
          \<and> (case t of
                [] \<Rightarrow> False
              | d # u \<Rightarrow>
                  isDigit d
                  \<or> ((d = CHR ''+'' \<or> d = CHR ''-'')
                      \<and> (case u of [] \<Rightarrow> False | d2 # v \<Rightarrow> isDigit d2))))"

definition endsLiteral :: "NumberLiteral \<Rightarrow> string \<Rightarrow> bool" where
  "endsLiteral l rest =
     (noDigitAhead rest
      \<and> (expPart l = None \<longrightarrow> \<not> startsExponent rest)
      \<and> (expPart l = None \<and> fracDigits l = None \<longrightarrow>
            (case rest of [] \<Rightarrow> True | c # t \<Rightarrow> c \<noteq> CHR ''.'')))"

subsection \<open>The time-series aggregator\<close>

text \<open>
  The aggregator belongs to the pipeline (\<^verbatim>\<open>pipeline/build_dashboard_data.py\<close>), whose
  source is not among the files of the presentation layer; the browser only reads its
  results. The definitions of this subsection and of the next two are modelled from the
  specification.

  Of an Observation the aggregator reads the date and the price; a date is a day number,
  so that the day \<open>N\<close> calendar days before \<open>d\<close> is \<open>d - N\<close>. A Series is the list of the
  Observations of one region, category and commodity, in increasing order of date,
  with one Observation per date.
\<close>

record Observation =
  obs_date :: int
  obs_price :: "rat option"

type_synonym Series = "Observation list"

text \<open>Modelled from the spec: the latest date of a Series, that of its last Observation.\<close>

definition series_latest_date :: "Series \<Rightarrow> int option" where
  "series_latest_date s = (if s = [] then None else Some (obs_date (last s)))"

text \<open>Modelled from the spec: the Observation of a Series at an exact calendar date.\<close>

definition lookup_date :: "Series \<Rightarrow> int \<Rightarrow> Observation option" where
  "lookup_date s d = find (\<lambda>ob. obs_date ob = d) s"

text \<open>Modelled from the spec: the prices of the Observations that have one, in date order.\<close>

definition priced_values :: "Series \<Rightarrow> rat list" where
  "priced_values s = List.map_filter obs_price s"

text \<open>Modelled from the spec: the price of the latest priced Observation.\<close>

definition latest_priced :: "Series \<Rightarrow> rat option" where
  "latest_priced s = (if priced_values s = [] then None else Some (last (priced_values s)))"

text \<open>
  Modelled from the spec: the percent change over \<open>N\<close> days (section 4.3), absent from the
  sources. It needs the latest priced Observation and a priced Observation at the exact
  date \<open>N\<close> days before the latest date of the Series, and it is \<open>None\<close> when the dated
  Observation is missing or null, or when the earlier price is zero.
\<close>

definition pct_change :: "nat \<Rightarrow> Series \<Rightarrow> rat option" where
  "pct_change N s =
     (case latest_priced s of
        None \<Rightarrow> None
      | Some p \<Rightarrow>
          (case series_latest_date s of
             None \<Rightarrow> None
           | Some d \<Rightarrow>
               (case lookup_date s (d - int N) of
                  None \<Rightarrow> None
                | Some ob \<Rightarrow>
                    (case obs_price ob of
                       None \<Rightarrow> None
                     | Some q \<Rightarrow> if q = 0 then None else Some ((p - q) / q * 100)))))"

definition change_7d_pct :: "Series \<Rightarrow> rat option" where
  "change_7d_pct s = pct_change 7 s"

definition change_30d_pct :: "Series \<Rightarrow> rat option" where
  "change_30d_pct s = pct_change 30 s"

text \<open>
  Modelled from the spec: the moving average over a window \<open>W\<close> (section 4.3), absent from
  the sources. It is the mean of the last \<open>W\<close> Observations with a price, walking backward
  from the latest date, over however many exist when there are fewer than \<open>W\<close>, and
  \<open>None\<close> when there is none.
\<close>

definition moving_average :: "nat \<Rightarrow> Series \<Rightarrow> rat option" where
  "moving_average W s =
     (let window = take W (rev (priced_values s)) in
      if window = [] then None else Some (sum_list window / of_nat (length window)))"

subsection \<open>The volatility score\<close>

datatype score = Low | Moderate | High | VeryHigh | InsufficientData

text \<open>
  Modelled from the spec: the bucket of a coefficient of variation given in percent
  (sections 3 and 8), absent from the sources: below 2 is Low, from 2 up to 5 is Moderate,
  from 5 up to 10 is High, 10 and more is Very High. With fewer priced points than the
  minimum the score is Insufficient Data.
\<close>

definition volatility_bucket :: "rat \<Rightarrow> score" where
  "volatility_bucket cv =
     (if cv < 2 then Low else if cv < 5 then Moderate else if cv < 10 then High else VeryHigh)"

text \<open>
  Modelled from the spec: the score of a series with \<open>n\<close> priced points and the
  coefficient of variation \<open>cv\<close>, for a given minimum number of points (section 3
  recommends 5).
\<close>

definition volatility_score_of :: "nat \<Rightarrow> nat \<Rightarrow> rat \<Rightarrow> score" where
  "volatility_score_of min_points n cv =
     (if n < min_points then InsufficientData else volatility_bucket cv)"

subsection \<open>The cross-region comparison\<close>

record RegionalTrend =
  rt_region :: string
  rt_latest_price :: rat
  rt_change_pct_7_day :: "rat option"
  rt_change_pct_30_day :: "rat option"
  rt_volatility_score :: string
  rt_volatility_value :: "rat option"
  rt_momentum :: rat
  rt_rank :: nat

text \<open>
  Modelled from the spec: the ranking of the regions that carry a commodity (section 4.4),
  built by the pipeline and absent from the sources: ascending by latest price, regions
  of equal price in the lexical order of their names.
\<close>

definition rank_regions :: "RegionalTrend list \<Rightarrow> RegionalTrend list" where
  "rank_regions rs = sort_key (\<lambda>r. (rt_latest_price r, rt_region r)) rs"

text \<open>
  The table of \<^verbatim>\<open>sections/CommodityComparison.tsx\<close> marks the rows of
  \<^verbatim>\<open>regional_trends\<close> by their index: \<^verbatim>\<open>index === 0\<close> is the cheapest and
  \<^verbatim>\<open>index === regional_trends.length - 1\<close> the most expensive.
\<close>

definition isCheapest :: "nat \<Rightarrow> bool" where
  "isCheapest index = (index = 0)"

definition isMostExpensive :: "RegionalTrend list \<Rightarrow> nat \<Rightarrow> bool" where
  "isMostExpensive regional_trends index = (int index = int (length regional_trends) - 1)"

definition trend_of :: "string \<Rightarrow> rat \<Rightarrow> RegionalTrend" where
  "trend_of r p =
     \<lparr>rt_region = r, rt_latest_price = p, rt_change_pct_7_day = None,
      rt_change_pct_30_day = None, rt_volatility_score = ''Low'', rt_volatility_value = None,
      rt_momentum = 0, rt_rank = 0\<rparr>"

subsection \<open>Concrete inputs\<close>

text \<open>A dashboard item with the given region, category, commodity, price, changes and volatility.\<close>

definition sample_item ::
  "string \<Rightarrow> string \<Rightarrow> string \<Rightarrow> rat \<Rightarrow> rat option \<Rightarrow> rat option \<Rightarrow> rat option \<Rightarrow> DashboardItem" where
  "sample_item r cat c p c7 c30 v =
     \<lparr>region = r, category = cat, commodity = c, unit = ''kg'', latest_price = p,
      latest_date = ''2026-02-22'', ma_7 = None, ma_30 = None, change_pct_7_day = c7,
      change_pct_30_day = c30, volatility_score = ''Low'', volatility_value = v,
      momentum = 0, trend = []\<rparr>"

text \<open>
  A dashboard of fourteen items for the top lists: one without volatility, two with the
  same volatility, and more than ten with one.
\<close>

definition volatility_sample :: "DashboardItem list" where
  "volatility_sample =
     map (\<lambda>(c, v). sample_item ''NCR'' ''Rice'' c 40 None None v)
       [(''a'', Some 3), (''b'', Some 12), (''c'', None), (''d'', Some 7), (''e'', Some 7),
        (''f'', Some 1), (''g'', Some 9), (''h'', Some 5), (''i'', Some 11), (''j'', Some 2),
        (''k'', Some 8), (''l'', Some 4), (''m'', Some 6), (''n'', Some 10)]"




text \<open>The literal \<^verbatim>\<open>1234.5e1\<close> of the grammar.\<close>

definition sample_literal :: NumberLiteral where
  "sample_literal =
     \<lparr>intDigits = ''1234'', fracDigits = Some ''5'', expPart = Some (CHR ''e'', [], ''1'')\<rparr>"
section \<open>Properties\<close>

subsection \<open>The dashboard filter\<close>

text \<open>
  Claim C9. For every dashboard list and every choice of filters, the dashboard filter
  returns an order-preserving sublist of its input: the output is a subsequence of the
  input, so every output item occurs in the input and the relative order is kept. With
  region "All Regions", category "All Categories" and an empty search string the filter
  is the identity.
\<close>

theorem useFilteredDashboard_sublist_identity:
  "subseq (useFilteredDashboard dashboard filters) dashboard
   \<and> set (useFilteredDashboard dashboard filters) \<subseteq> set dashboard
   \<and> useFilteredDashboard dashboard
        \<lparr>f_region = Some ''All Regions'', f_category = Some ''All Categories'',
         f_search = Some ''''\<rparr> = dashboard"
  by (simp add: useFilteredDashboard_def keepItem_def)


subsection \<open>Sorting with a comparator that compares keys\<close>

text \<open>
  When the comparator orders its arguments by a key, the insertion sort is the library's
  stable \<^const>\<open>sort_key\<close>, whose properties carry over. A comparator that subtracts the
  keys is consistent.
\<close>

lemma insert_by_insort_key:
  fixes f :: "'a \<Rightarrow> 'k::linorder"
  assumes "\<And>a b. (cmp a b \<le> 0) = (f a \<le> f b)"
  shows "insert_by cmp x ys = insort_key f x ys"
  using assms by (induction ys) simp_all

lemma foldr_insert_by_sort_key:
  fixes f :: "'a \<Rightarrow> 'k::linorder"
  assumes "\<And>a b. (cmp a b \<le> 0) = (f a \<le> f b)"
  shows "foldr (insert_by cmp) xs [] = sort_key f xs"
proof -
  have "insert_by cmp = insort_key f"
    using insert_by_insort_key [OF assms] by (intro ext)
  then show ?thesis
    by (simp add: sort_key_def)
qed

lemma key_difference_consistent:
  fixes k :: "'a \<Rightarrow> rat"
  shows "consistent_on (\<lambda>a b. k b - k a) xs" and "consistent_on (\<lambda>a b. k a - k b) xs"
  by (auto simp: consistent_on_def)

lemma insort_key_cong_set:
  assumes "f x = g x" "\<forall>y \<in> set ys. f y = g y"
  shows "insort_key f x ys = insort_key g x ys"
  using assms by (induction ys) simp_all

lemma sort_key_cong_set:
  assumes "\<forall>x \<in> set xs. f x = g x"
  shows "sort_key f xs = sort_key g xs"
  using assms
proof (induction xs)
  case Nil
  show ?case by simp
next
  case (Cons x xs)
  then have "sort_key f xs = sort_key g xs" by simp
  moreover have "insort_key f x (sort_key g xs) = insort_key g x (sort_key g xs)"
    using Cons.prems by (intro insort_key_cong_set) simp_all
  ultimately show ?case by simp
qed

lemma filter_take_prefix: "prefix (filter P (take n xs)) (filter P xs)"
proof -
  have "prefix (take n xs) xs"
    by (rule take_is_prefix)
  then show ?thesis
    by (rule filter_mono_prefix)
qed

lemma orZero_the: "v \<noteq> None \<Longrightarrow> orZero v = the v"
  by (cases v) auto

subsection \<open>The volatility top lists\<close>

text \<open>
  The ranking of the items that have a volatility, by a key: the stable sort of the
  library, of which a top list is the first ten.
\<close>

lemma mostVolatile_sort_key:
  "mostVolatile engine dashboard =
     take 10 (sort_key (\<lambda>d. - the (volatility_value d))
       (filter (\<lambda>d. volatility_value d \<noteq> None) dashboard))"
proof -
  let ?nn = "filter (\<lambda>d. volatility_value d \<noteq> None) dashboard"
  let ?cmp = "\<lambda>a b. orZero (volatility_value b) - orZero (volatility_value a)"
  have "js_sort engine ?cmp ?nn = foldr (insert_by ?cmp) ?nn []"
    using key_difference_consistent(1) [of "\<lambda>d. orZero (volatility_value d)" ?nn]
    by (simp add: js_sort_def)
  also have "\<dots> = sort_key (\<lambda>d. - orZero (volatility_value d)) ?nn"
    by (rule foldr_insert_by_sort_key) auto
  also have "\<dots> = sort_key (\<lambda>d. - the (volatility_value d)) ?nn"
    by (rule sort_key_cong_set) (simp add: orZero_the)
  finally show ?thesis
    by (simp add: mostVolatile_def)
qed

lemma leastVolatile_sort_key:
  "leastVolatile engine dashboard =
     take 10 (sort_key (\<lambda>d. the (volatility_value d))
       (filter (\<lambda>d. volatility_value d \<noteq> None) dashboard))"
proof -
  let ?nn = "filter (\<lambda>d. volatility_value d \<noteq> None) dashboard"
  let ?cmp = "\<lambda>a b. orZero (volatility_value a) - orZero (volatility_value b)"
  have "js_sort engine ?cmp ?nn = foldr (insert_by ?cmp) ?nn []"
    using key_difference_consistent(2) [of "\<lambda>d. orZero (volatility_value d)" ?nn]
    by (simp add: js_sort_def)
  also have "\<dots> = sort_key (\<lambda>d. orZero (volatility_value d)) ?nn"
    by (rule foldr_insert_by_sort_key) auto
  also have "\<dots> = sort_key (\<lambda>d. the (volatility_value d)) ?nn"
    by (rule sort_key_cong_set) (simp add: orZero_the)
  finally show ?thesis
    by (simp add: leastVolatile_def)
qed

text \<open>
  The first \<open>n\<close> of a stable ranking by a key \<open>f\<close> that is \<open>g\<close> of the volatility: its
  length, its members, its order, the order of its ties, and that it leaves out no item
  that ranks strictly before one of its members.
\<close>

lemma top_length:
  "length (take n (sort_key f xs)) = min n (length xs)"
  by (simp add: min.commute)

lemma top_members:
  "set (take n (sort_key f (filter (\<lambda>d. volatility_value d \<noteq> None) dashboard)))
     \<subseteq> {d \<in> set dashboard. volatility_value d \<noteq> None}"
proof -
  have "set (take n (sort_key f (filter (\<lambda>d. volatility_value d \<noteq> None) dashboard)))
          \<subseteq> set (sort_key f (filter (\<lambda>d. volatility_value d \<noteq> None) dashboard))"
    by (rule set_take_subset)
  then show ?thesis by auto
qed

lemma top_sorted:
  fixes f :: "'a \<Rightarrow> rat"
  shows "sorted_wrt (\<lambda>a b. f a \<le> f b) (take n (sort_key f xs))"
proof -
  have "sorted_wrt (\<lambda>a b. f a \<le> f b) (sort_key f xs)"
    using sorted_sort_key [of f xs] by (simp add: sorted_wrt_map)
  then show ?thesis
    by (rule sorted_wrt_take)
qed

lemma top_stable:
  fixes f :: "DashboardItem \<Rightarrow> rat"
  assumes "\<And>d. volatility_value d = Some k \<Longrightarrow> f d = g k"
    and "\<And>d. volatility_value d \<noteq> None \<Longrightarrow> f d = g k \<Longrightarrow> volatility_value d = Some k"
  shows "prefix
     (filter (\<lambda>d. volatility_value d = Some k)
        (take n (sort_key f (filter (\<lambda>d. volatility_value d \<noteq> None) dashboard))))
     (filter (\<lambda>d. volatility_value d = Some k) dashboard)"
proof -
  let ?nn = "filter (\<lambda>d. volatility_value d \<noteq> None) dashboard"
  have in_nn: "\<And>d. d \<in> set (sort_key f ?nn) \<Longrightarrow> volatility_value d \<noteq> None"
    by auto
  have "filter (\<lambda>d. volatility_value d = Some k) (sort_key f ?nn)
          = filter (\<lambda>d. f d = g k) (sort_key f ?nn)"
    by (rule filter_cong [OF refl]) (use assms in_nn in blast)
  also have "\<dots> = filter (\<lambda>d. f d = g k) ?nn"
    by (rule sort_key_stable)
  also have "\<dots> = filter (\<lambda>d. volatility_value d = Some k) ?nn"
    by (rule filter_cong [OF refl]) (use assms in auto)
  also have "\<dots> = filter (\<lambda>d. volatility_value d = Some k) dashboard"
    by (simp add: conj_commute cong: conj_cong)
  finally have eq: "filter (\<lambda>d. volatility_value d = Some k) (sort_key f ?nn)
          = filter (\<lambda>d. volatility_value d = Some k) dashboard" .
  have "prefix (filter (\<lambda>d. volatility_value d = Some k) (take n (sort_key f ?nn)))
          (filter (\<lambda>d. volatility_value d = Some k) (sort_key f ?nn))"
    by (rule filter_take_prefix)
  then show ?thesis
    by (simp only: eq)
qed

lemma top_complete:
  fixes f :: "'a \<Rightarrow> rat"
  assumes "x \<in> set xs" "y \<in> set (take n (sort_key f xs))" "f x < f y"
  shows "x \<in> set (take n (sort_key f xs))"
proof (rule ccontr)
  assume out: "x \<notin> set (take n (sort_key f xs))"
  let ?L = "sort_key f xs"
  have "set ?L = set (take n ?L) \<union> set (drop n ?L)"
    by (metis append_take_drop_id set_append)
  moreover have "x \<in> set ?L"
    using assms(1) by simp
  ultimately have x: "x \<in> set (drop n ?L)"
    using out by blast
  have "sorted (map f (take n ?L @ drop n ?L))"
    by simp
  then have "\<forall>a \<in> set (take n ?L). \<forall>b \<in> set (drop n ?L). f a \<le> f b"
    unfolding map_append sorted_append by auto
  with assms(2) x have "f y \<le> f x"
    by blast
  with assms(3) show False
    by simp
qed

text \<open>
  Claim C2. For every dashboard list, the most-volatile and the least-volatile top list
  are the first ten of the ranking of the items whose \<open>volatility_value\<close> is not null,
  by descending and by ascending volatility, items of equal volatility in the order of
  the dashboard list. So each list holds ten items, or all items with a volatility when
  they are fewer; it holds only items of the dashboard whose \<open>volatility_value\<close> is not
  null; it is sorted, descending and ascending respectively; for every value \<open>k\<close> its
  items with the volatility \<open>k\<close> are, in the same order, the first ones of the items of
  the input with the volatility \<open>k\<close>, so of two tied items the one that is first in the
  input is first in the output; and no item is left out that is more volatile (less
  volatile, respectively) than an item of the list.
\<close>

theorem volatile_top_lists:
  "mostVolatile engine dashboard =
     take 10 (sort_key (\<lambda>d. - the (volatility_value d))
       (filter (\<lambda>d. volatility_value d \<noteq> None) dashboard))
   \<and> leastVolatile engine dashboard =
     take 10 (sort_key (\<lambda>d. the (volatility_value d))
       (filter (\<lambda>d. volatility_value d \<noteq> None) dashboard))
   \<and> length (mostVolatile engine dashboard)
       = min 10 (length (filter (\<lambda>d. volatility_value d \<noteq> None) dashboard))
   \<and> (\<forall>d \<in> set (mostVolatile engine dashboard).
         d \<in> set dashboard \<and> volatility_value d \<noteq> None)
   \<and> sorted_wrt (\<lambda>a b. the (volatility_value a) \<ge> the (volatility_value b))
        (mostVolatile engine dashboard)
   \<and> (\<forall>k. prefix (filter (\<lambda>d. volatility_value d = Some k) (mostVolatile engine dashboard))
                (filter (\<lambda>d. volatility_value d = Some k) dashboard))
   \<and> (\<forall>x \<in> set dashboard. \<forall>y \<in> set (mostVolatile engine dashboard).
         volatility_value x \<noteq> None \<and> the (volatility_value y) < the (volatility_value x)
         \<longrightarrow> x \<in> set (mostVolatile engine dashboard))
   \<and> length (leastVolatile engine dashboard)
       = min 10 (length (filter (\<lambda>d. volatility_value d \<noteq> None) dashboard))
   \<and> (\<forall>d \<in> set (leastVolatile engine dashboard).
         d \<in> set dashboard \<and> volatility_value d \<noteq> None)
   \<and> sorted_wrt (\<lambda>a b. the (volatility_value a) \<le> the (volatility_value b))
        (leastVolatile engine dashboard)
   \<and> (\<forall>k. prefix (filter (\<lambda>d. volatility_value d = Some k) (leastVolatile engine dashboard))
                (filter (\<lambda>d. volatility_value d = Some k) dashboard))
   \<and> (\<forall>x \<in> set dashboard. \<forall>y \<in> set (leastVolatile engine dashboard).
         volatility_value x \<noteq> None \<and> the (volatility_value x) < the (volatility_value y)
         \<longrightarrow> x \<in> set (leastVolatile engine dashboard))"
proof -
  let ?nn = "filter (\<lambda>d. volatility_value d \<noteq> None) dashboard"
  let ?dn = "\<lambda>d. - the (volatility_value d)"
  let ?up = "\<lambda>d. the (volatility_value d)"
  note m0 = mostVolatile_sort_key [of engine dashboard]
  note l0 = leastVolatile_sort_key [of engine dashboard]
  have m1: "length (mostVolatile engine dashboard) = min 10 (length ?nn)"
    unfolding m0 by (rule top_length)
  have l1: "length (leastVolatile engine dashboard) = min 10 (length ?nn)"
    unfolding l0 by (rule top_length)
  have m2: "\<forall>d \<in> set (mostVolatile engine dashboard).
      d \<in> set dashboard \<and> volatility_value d \<noteq> None"
    using top_members [of 10 ?dn dashboard] unfolding m0 by blast
  have l2: "\<forall>d \<in> set (leastVolatile engine dashboard).
      d \<in> set dashboard \<and> volatility_value d \<noteq> None"
    using top_members [of 10 ?up dashboard] unfolding l0 by blast
  have "sorted_wrt (\<lambda>a b. ?dn a \<le> ?dn b) (mostVolatile engine dashboard)"
    unfolding m0 by (rule top_sorted)
  then have m3: "sorted_wrt (\<lambda>a b. the (volatility_value a) \<ge> the (volatility_value b))
        (mostVolatile engine dashboard)"
    by simp
  have l3: "sorted_wrt (\<lambda>a b. the (volatility_value a) \<le> the (volatility_value b))
        (leastVolatile engine dashboard)"
    unfolding l0 by (rule top_sorted)
  have m4: "prefix (filter (\<lambda>d. volatility_value d = Some k) (mostVolatile engine dashboard))
                (filter (\<lambda>d. volatility_value d = Some k) dashboard)" for k
    unfolding m0 by (rule top_stable [where g = "\<lambda>k. - k"]) auto
  have l4: "prefix (filter (\<lambda>d. volatility_value d = Some k) (leastVolatile engine dashboard))
                (filter (\<lambda>d. volatility_value d = Some k) dashboard)" for k
    unfolding l0 by (rule top_stable [where g = "\<lambda>k. k"]) auto
  have m5: "x \<in> set (mostVolatile engine dashboard)"
    if "x \<in> set dashboard" "y \<in> set (mostVolatile engine dashboard)"
      "volatility_value x \<noteq> None \<and> the (volatility_value y) < the (volatility_value x)"
    for x y
    using that top_complete [of x ?nn y 10 ?dn] unfolding m0 by simp
  have l5: "x \<in> set (leastVolatile engine dashboard)"
    if "x \<in> set dashboard" "y \<in> set (leastVolatile engine dashboard)"
      "volatility_value x \<noteq> None \<and> the (volatility_value x) < the (volatility_value y)"
    for x y
    using that top_complete [of x ?nn y 10 ?up] unfolding l0 by simp
  from m0 l0 m1 m2 m3 m4 m5 l1 l2 l3 l4 l5 show ?thesis
    by blast
qed

theorem volatile_top_lists_witness:
  "map commodity (mostVolatile (\<lambda>cmp xs. xs) volatility_sample)
     = [''b'', ''i'', ''n'', ''g'', ''k'', ''d'', ''e'', ''m'', ''h'', ''l'']
   \<and> map commodity (leastVolatile (\<lambda>cmp xs. xs) volatility_sample)
     = [''f'', ''j'', ''a'', ''l'', ''h'', ''m'', ''d'', ''e'', ''k'', ''g'']
   \<and> length (filter (\<lambda>d. volatility_value d \<noteq> None) volatility_sample) = 13
   \<and> length (mostVolatile (\<lambda>cmp xs. xs) volatility_sample) = 10"
proof -
  note t = volatile_top_lists [of "\<lambda>cmp xs. xs" volatility_sample]
  note m = conjunct1 [OF t]
  note l = conjunct1 [OF conjunct2 [OF t]]
  show ?thesis
    unfolding m l by (simp add: volatility_sample_def sample_item_def)
qed

subsection \<open>Evaluating the arithmetic of doubles\<close>

lemma floor_rat_numeral: "\<lfloor>numeral a / numeral b :: rat\<rfloor> = numeral a div numeral b"
  using floor_divide_of_int_eq [of "numeral a" "numeral b", where ?'a = rat] by simp

lemma floor_rat_one_numeral: "\<lfloor>1 / numeral b :: rat\<rfloor> = 1 div numeral b"
  using floor_divide_of_int_eq [of 1 "numeral b", where ?'a = rat] by simp

lemmas fl_eval = fl_def ilog2_def pow2_def roundHalfEven_def shifts_def
  floor_rat_numeral floor_rat_one_numeral Let_def

lemma fl_not_NaN [simp]: "fl x \<noteq> NaN"
  by (simp add: fl_def Let_def)

text \<open>
  The rounding on known values: \<open>0.1\<close>, the first integer that is not a double, a number
  beyond the largest double, one below the smallest, the tie between the smallest
  subnormal and zero, and the sum \<open>0.1 + 0.2\<close>.
\<close>

lemma fl_tenth: "fl (1 / 10) = Fin (3602879701896397 / 36028797018963968)"
  by (simp add: fl_eval)

lemma fl_odd_integer: "fl 9007199254740993 = Fin 9007199254740992"
  by (simp add: fl_eval)

lemma fl_overflow: "fl (10 ^ 400) = PosInf"
  by (simp add: fl_eval)

lemma fl_underflow: "fl (1 / 10 ^ 400) = Fin 0"
  by (simp add: fl_eval)

lemma fl_subnormal: "fl (1 / 2 ^ 1075) = Fin 0 \<and> fl (3 / 2 ^ 1075) = Fin (2 / 2 ^ 1074)"
  by (simp add: fl_eval)

lemma js_add_tenths:
  "js_add (fl (1 / 10)) (fl (2 / 10)) = Fin (1351079888211149 / 4503599627370496)"
  by (simp add: fl_eval)

text \<open>
  The binary search finds the exponent: for a positive \<open>x\<close> between \<open>2\<^sup>-\<^sup>2\<^sup>0\<^sup>4\<^sup>7\<close> and
  \<open>2\<^sup>2\<^sup>0\<^sup>4\<^sup>8\<close>, so for every one that does not underflow to the smallest exponent or
  overflow, \<open>2\<^sup>e \<le> x < 2\<^sup>e\<^sup>+\<^sup>1\<close> with \<open>e = ilog2 x\<close>.
\<close>

lemma exponent_of_lower: "1 \<le> y \<Longrightarrow> 2 ^ exponent_of ss y \<le> y"
proof (induction ss arbitrary: y)
  case Nil
  then show ?case by simp
next
  case (Cons s ss)
  show ?case
  proof (cases "2 ^ s \<le> y")
    case True
    then have "1 \<le> y / 2 ^ s"
      by (simp add: le_divide_eq)
    from Cons.IH [OF this] have "2 ^ exponent_of ss (y / 2 ^ s) \<le> y / 2 ^ s" .
    then have "2 ^ s * 2 ^ exponent_of ss (y / 2 ^ s) \<le> y"
      by (simp add: le_divide_eq mult.commute)
    with True show ?thesis
      by (simp add: power_add)
  next
    case False
    with Cons show ?thesis by simp
  qed
qed

lemma exponent_of_upper:
  "halving ss \<Longrightarrow> 0 < y \<Longrightarrow> y < 2 ^ (sum_list ss + 1) \<Longrightarrow> y < 2 ^ (exponent_of ss y + 1)"
proof (induction ss arbitrary: y)
  case Nil
  then show ?case by simp
next
  case (Cons s ss)
  from Cons.prems(1) have s: "s = sum_list ss + 1" and h: "halving ss"
    by simp_all
  show ?case
  proof (cases "2 ^ s \<le> y")
    case True
    have "y < 2 ^ (s + s)"
      using Cons.prems(3) s by simp
    then have "y / 2 ^ s < 2 ^ (sum_list ss + 1)"
      using s by (simp add: divide_less_eq power_add)
    moreover have "0 < y / 2 ^ s"
      using Cons.prems(2) by simp
    ultimately have "y / 2 ^ s < 2 ^ (exponent_of ss (y / 2 ^ s) + 1)"
      using Cons.IH [OF h] by blast
    then have "y < 2 ^ (exponent_of ss (y / 2 ^ s) + 1) * 2 ^ s"
      by (simp add: divide_less_eq)
    with True show ?thesis
      by (simp add: power_add mult.commute)
  next
    case False
    then have "y < 2 ^ (sum_list ss + 1)"
      using s by simp
    from Cons.IH [OF h Cons.prems(2) this] False show ?thesis
      by simp
  qed
qed

lemma halving_shifts: "halving shifts" "sum_list shifts = 2047"
  by code_simp+

lemma pow2_pos: "0 < pow2 e"
  by (simp add: pow2_def)

lemma pow2_powi: "pow2 e = 2 powi e"
  by (simp add: pow2_def power_int_def inverse_eq_divide power_divide)

lemma pow2_add: "pow2 (a + b) = pow2 a * pow2 b"
  by (simp add: pow2_powi power_int_add)

lemma pow2_nat: "0 \<le> e \<Longrightarrow> pow2 e = 2 ^ nat e"
  by (simp add: pow2_def)

lemma ilog2_lower:
  assumes "0 < x" "pow2 (- 2047) \<le> x"
  shows "pow2 (ilog2 x) \<le> x"
proof (cases "1 \<le> x")
  case True
  then show ?thesis
    using exponent_of_lower [of x shifts] by (simp add: ilog2_def pow2_def)
next
  case False
  define k where "k = exponent_of shifts (1 / x)"
  have il: "ilog2 x = (if x = pow2 (- int k) then - int k else - int k - 1)"
    using False by (simp add: ilog2_def Let_def k_def)
  show ?thesis
  proof (cases "x = pow2 (- int k)")
    case True
    with il have "pow2 (ilog2 x) = x"
      by simp
    then show ?thesis
      by simp
  next
    case neq: False
    have "1 / x \<le> 2 ^ 2047"
      using assms by (simp add: pow2_def field_simps)
    then have "1 / x < 2 ^ (sum_list shifts + 1)"
      by (simp add: halving_shifts(2))
    moreover have "0 < 1 / x"
      using assms(1) by simp
    ultimately have "1 / x < 2 ^ (k + 1)"
      using exponent_of_upper [OF halving_shifts(1), of "1 / x"] by (simp add: k_def)
    then have "1 / 2 ^ (k + 1) \<le> x"
      using assms(1) by (simp add: field_simps)
    moreover have "pow2 (- int k - 1) = 1 / 2 ^ (k + 1)"
      by (simp add: pow2_def nat_add_distrib)
    ultimately show ?thesis
      using neq il by simp
  qed
qed

lemma ilog2_upper:
  assumes "0 < x" "x < 2 ^ 2048"
  shows "x < pow2 (ilog2 x + 1)"
proof (cases "1 \<le> x")
  case True
  have "x < 2 ^ (sum_list shifts + 1)"
    using assms(2) by (simp add: halving_shifts(2))
  from exponent_of_upper [OF halving_shifts(1) assms(1) this] True show ?thesis
    by (simp add: ilog2_def pow2_def nat_add_distrib)
next
  case False
  define k where "k = exponent_of shifts (1 / x)"
  have il: "ilog2 x = (if x = pow2 (- int k) then - int k else - int k - 1)"
    using False by (simp add: ilog2_def Let_def k_def)
  have "1 \<le> 1 / x"
    using False assms(1) by (simp add: le_divide_eq)
  then have "2 ^ k \<le> 1 / x"
    unfolding k_def by (rule exponent_of_lower)
  then have "x \<le> 1 / 2 ^ k"
    using assms(1) by (simp add: field_simps)
  moreover have "pow2 (- int k) = 1 / 2 ^ k"
    by (simp add: pow2_def)
  ultimately have le: "x \<le> pow2 (- int k)"
    by simp
  show ?thesis
  proof (cases "x = pow2 (- int k)")
    case True
    have "pow2 (- int k + 1) = pow2 (- int k) * 2"
      using pow2_add [of "- int k" 1] by (simp add: pow2_def)
    with True il assms(1) show ?thesis
      by simp
  next
    case neq: False
    with le il show ?thesis
      by simp
  qed
qed

text \<open>
  The rounding is to a nearest one: the integer chosen is at most a half away, so a
  finite result of \<open>fl\<close> is at most half a unit in the last place away from the number
  rounded.
\<close>

lemma roundHalfEven_floor: "\<lfloor>y\<rfloor> \<le> roundHalfEven y"
  by (simp add: roundHalfEven_def Let_def)

lemma roundHalfEven_int: "roundHalfEven (of_int j) = j"
  by (simp add: roundHalfEven_def Let_def)

lemma roundHalfEven_near: "\<bar>of_int (roundHalfEven y) - y\<bar> \<le> 1 / 2"
proof -
  define f where "f = \<lfloor>y\<rfloor>"
  have f: "of_int f \<le> y" "y < of_int f + 1"
    unfolding f_def by linarith+
  have r: "roundHalfEven y =
      (if y - of_int f < 1 / 2 then f else if 1 / 2 < y - of_int f then f + 1
       else if even f then f else f + 1)"
    by (simp add: roundHalfEven_def Let_def f_def)
  consider "y - of_int f < 1 / 2" | "1 / 2 < y - of_int f" | "y - of_int f = 1 / 2"
    by linarith
  then show ?thesis
  proof cases
    case 1
    with f r show ?thesis by (simp add: abs_if)
  next
    case 2
    with f r show ?thesis by (simp add: abs_if)
  next
    case 3
    with f r show ?thesis by (cases "even f") (simp_all add: abs_if)
  qed
qed

lemma fl_near:
  assumes "fl x = Fin r"
  shows "\<bar>r - x\<bar> \<le> pow2 (max (ilog2 \<bar>x\<bar>) (- 1022) - 52) / 2"
proof (cases "x = 0")
  case True
  with assms show ?thesis
    using pow2_pos [of "max (ilog2 \<bar>x\<bar>) (- 1022) - 52"] by (simp add: fl_def)
next
  case False
  define u where "u = pow2 (max (ilog2 \<bar>x\<bar>) (- 1022) - 52)"
  define n where "n = roundHalfEven (\<bar>x\<bar> / u)"
  have u: "0 < u"
    by (simp add: u_def pow2_pos)
  from assms False have r: "r = (if 0 < x then of_int n * u else - (of_int n * u))"
    by (auto simp: fl_def Let_def u_def n_def split: if_splits)
  have "\<bar>of_int n - \<bar>x\<bar> / u\<bar> \<le> 1 / 2"
    unfolding n_def by (rule roundHalfEven_near)
  then have "\<bar>of_int n - \<bar>x\<bar> / u\<bar> * u \<le> 1 / 2 * u"
    using u by (simp only: mult_le_cancel_right_pos)
  moreover have "\<bar>of_int n - \<bar>x\<bar> / u\<bar> * u = \<bar>of_int n * u - \<bar>x\<bar>\<bar>"
  proof -
    have "\<bar>of_int n - \<bar>x\<bar> / u\<bar> * u = \<bar>(of_int n - \<bar>x\<bar> / u) * u\<bar>"
      using u by (simp add: abs_mult)
    also have "(of_int n - \<bar>x\<bar> / u) * u = of_int n * u - \<bar>x\<bar>"
      using u by (simp add: algebra_simps)
    finally show ?thesis .
  qed
  ultimately have "\<bar>of_int n * u - \<bar>x\<bar>\<bar> \<le> u / 2"
    by simp
  then show ?thesis
    unfolding r u_def [symmetric] by (cases "0 < x") (auto simp: abs_if split: if_splits)
qed

text \<open>
  Doubles are multiples of \<open>2\<^sup>-\<^sup>1\<^sup>0\<^sup>7\<^sup>4\<close>, and a multiple other than zero is not rounded to
  zero or to the other sign. So the rounded difference of two doubles has the sign of
  their exact difference: comparing by the sign of \<^verbatim>\<open>a - b\<close> is comparing \<open>a\<close> and \<open>b\<close>.
\<close>

lemma double_multiple:
  assumes "isDouble a"
  shows "\<exists>m::int. a = of_int m * pow2 (- 1074)"
proof (cases "a = 0")
  case True
  then show ?thesis
    by (intro exI [of _ 0]) simp
next
  case False
  define e where "e = max (ilog2 \<bar>a\<bar>) (- 1022)"
  define n where "n = roundHalfEven (\<bar>a\<bar> / pow2 (e - 52))"
  from assms False have "a = of_int n * pow2 (e - 52) \<or> a = - (of_int n * pow2 (e - 52))"
    by (auto simp: isDouble_def fl_def Let_def e_def n_def split: if_splits)
  moreover have "0 \<le> e + 1022"
    by (simp add: e_def)
  then have "pow2 (e - 52) = of_int (2 ^ nat (e + 1022)) * pow2 (- 1074)"
    using pow2_add [of "e + 1022" "- 1074"] by (simp add: pow2_nat)
  ultimately have "a = of_int (n * 2 ^ nat (e + 1022)) * pow2 (- 1074)
      \<or> a = of_int (- (n * 2 ^ nat (e + 1022))) * pow2 (- 1074)"
    by (auto simp: mult.assoc)
  then show ?thesis
    by blast
qed

lemma fl_sign:
  assumes x: "x = of_int k * pow2 (- 1074)" and k: "k \<noteq> 0"
  shows "sign_of (fl x) = sgn x"
proof -
  have x0: "x \<noteq> 0"
    using x k pow2_pos [of "- 1074"] by simp
  have ax: "\<bar>x\<bar> = of_int \<bar>k\<bar> * pow2 (- 1074)"
    using x pow2_pos [of "- 1074"] by (simp add: abs_mult)
  have "1 \<le> \<bar>k\<bar>"
    using k by simp
  then have "(of_int 1 :: rat) \<le> of_int \<bar>k\<bar>"
    by (simp only: of_int_le_iff)
  then have "1 \<le> (of_int \<bar>k\<bar> :: rat)"
    by (simp del: of_int_abs)
  then have low: "pow2 (- 1074) \<le> \<bar>x\<bar>"
    unfolding ax using pow2_pos [of "- 1074"] by (simp add: mult_le_cancel_right1)
  have "pow2 (- 2047) \<le> pow2 (- 1074)"
    by (simp add: pow2_def)
  with low have low2: "pow2 (- 2047) \<le> \<bar>x\<bar>"
    by simp
  define e where "e = max (ilog2 \<bar>x\<bar>) (- 1022)"
  define u where "u = pow2 (e - 52)"
  define n where "n = roundHalfEven (\<bar>x\<bar> / u)"
  have u: "0 < u"
    by (simp add: u_def pow2_pos)
  have n: "1 \<le> n"
  proof (cases "ilog2 \<bar>x\<bar> \<le> - 1022")
    case True
    then have "u = pow2 (- 1074)"
      by (simp add: u_def e_def)
    then have "\<bar>x\<bar> / u = of_int \<bar>k\<bar>"
      using ax pow2_pos [of "- 1074"] by simp
    then have "n = \<bar>k\<bar>"
      unfolding n_def by (simp only: roundHalfEven_int)
    with k show ?thesis
      by simp
  next
    case False
    then have e: "e = ilog2 \<bar>x\<bar>"
      by (simp add: e_def)
    have "pow2 e \<le> \<bar>x\<bar>"
      unfolding e using x0 low2 by (intro ilog2_lower) simp_all
    moreover have "pow2 e = pow2 52 * u"
      using pow2_add [of 52 "e - 52"] by (simp add: u_def)
    ultimately have "pow2 52 \<le> \<bar>x\<bar> / u"
      using u by (simp add: le_divide_eq)
    moreover have "(1 :: rat) \<le> pow2 52"
      by (simp add: pow2_def)
    ultimately have "1 \<le> \<bar>x\<bar> / u"
      by simp
    then have "1 \<le> \<lfloor>\<bar>x\<bar> / u\<rfloor>"
      by (simp add: le_floor_iff)
    with roundHalfEven_floor [of "\<bar>x\<bar> / u"] show ?thesis
      unfolding n_def by linarith
  qed
  then have "0 < (of_int n :: rat)"
    by simp
  with u have r: "0 < of_int n * u"
    by simp
  have "fl x = (if pow2 1024 \<le> of_int n * u then (if 0 < x then PosInf else NegInf)
               else Fin (if 0 < x then of_int n * u else - (of_int n * u)))"
    using x0 by (simp add: fl_def Let_def e_def u_def n_def)
  with r x0 show ?thesis
    by (cases "0 < x") (auto simp: sgn_if)
qed

lemma double_difference_sign:
  assumes "isDouble a" "isDouble b"
  shows "sign_of (js_sub (Fin a) (Fin b)) = sgn (a - b)"
proof (cases "a = b")
  case True
  then show ?thesis
    by (simp add: js_sub_def fl_def)
next
  case False
  from assms obtain m m' :: int where a: "a = of_int m * pow2 (- 1074)"
    and b: "b = of_int m' * pow2 (- 1074)"
    using double_multiple by blast
  have "a - b = of_int (m - m') * pow2 (- 1074)"
    by (simp add: a b algebra_simps)
  moreover have "m - m' \<noteq> 0"
    using False a b by auto
  ultimately have "sign_of (fl (a - b)) = sgn (a - b)"
    by (rule fl_sign)
  then show ?thesis
    by (simp add: js_sub_def)
qed

subsection \<open>Per-category statistics\<close>










subsection \<open>The price parser\<close>

lemmas parse_eval = parsePrice_def removeCommas_def parseFloat_def isWhiteSpace_def
  strUnsignedDecimalLiteral_def isDigit_def digitsVal_def digitVal_def exponentPart_def
  signedDigits_def scale10_def

lemma isDigit_chars:
  "isDigit c \<Longrightarrow>
     c \<noteq> CHR ''I'' \<and> c \<noteq> CHR ''-'' \<and> c \<noteq> CHR ''+'' \<and> c \<noteq> CHR ''.'' \<and> c \<noteq> CHR ''e''
     \<and> c \<noteq> CHR ''E'' \<and> \<not> isWhiteSpace c"
  by (auto simp: isDigit_def isWhiteSpace_def)

lemma js_neg_fl: "js_neg (fl x) = fl (- x)"
  by (cases "x = 0"; cases "0 < x") (simp_all add: fl_def Let_def)

lemma js_neg_NaN: "(js_neg x = NaN) = (x = NaN)"
  by (cases x) simp_all

lemma strUnsigned_NaN: "(strUnsignedDecimalLiteral u = NaN) = (\<not> startsNumber u)"
proof (cases "startsWith u ''Infinity''")
  case True
  then show ?thesis by (simp add: strUnsignedDecimalLiteral_def startsNumber_def)
next
  case False
  show ?thesis
  proof (cases u)
    case Nil
    then show ?thesis by (simp add: strUnsignedDecimalLiteral_def startsNumber_def)
  next
    case (Cons c v)
    show ?thesis
    proof (cases "isDigit c")
      case True
      then show ?thesis using False Cons
        by (simp add: strUnsignedDecimalLiteral_def startsNumber_def Let_def)
    next
      case nd: False
      show ?thesis
      proof (cases v)
        case Nil
        then show ?thesis using False Cons nd
          by (simp add: strUnsignedDecimalLiteral_def startsNumber_def Let_def)
      next
        case (Cons d w)
        then show ?thesis using False \<open>u = c # v\<close> nd
          by (simp add: strUnsignedDecimalLiteral_def startsNumber_def Let_def)
      qed
    qed
  qed
qed

lemma parseFloat_NaN: "(parseFloat t = NaN) = (\<not> hasNumericPrefix t)"
  by (cases "dropWhile isWhiteSpace t")
    (simp_all add: parseFloat_def hasNumericPrefix_def strUnsigned_NaN js_neg_NaN
      del: dropWhile_eq_Nil_conv)

lemma parsePrice_None:
  "(parsePrice s = None) = (s = [] \<or> s = ''N/A'' \<or> \<not> hasNumericPrefix (removeCommas s))"
  by (simp add: parsePrice_def Let_def parseFloat_NaN)

lemma digitsVal_Nil: "digitsVal [] = 0"
  by (simp add: digitsVal_def)

lemma all_digits_takeWhile: "list_all isDigit ds \<Longrightarrow> takeWhile isDigit ds = ds \<and> dropWhile isDigit ds = []"
  by (induction ds) auto

lemma spec_unsigned_agrees:
  assumes "spec_unsignedDecimal t = Some v"
  shows "strUnsignedDecimalLiteral t = fl v"
proof -
  let ?ip = "takeWhile isDigit t" and ?r = "dropWhile isDigit t"
  from assms have ip: "?ip \<noteq> []"
    by (auto simp: spec_unsignedDecimal_def Let_def split: if_splits)
  then obtain c u where t: "t = c # u" and c: "isDigit c"
    by (cases t) (auto split: if_splits)
  from c have noInf: "\<not> startsWith t ''Infinity''"
    using isDigit_chars [of c] by (simp add: t)
  show ?thesis
  proof (cases "?r = []")
    case True
    with assms ip have "v = of_nat (digitsVal ?ip)"
      by (simp add: spec_unsignedDecimal_def Let_def)
    with True ip noInf show ?thesis
      by (simp add: strUnsignedDecimalLiteral_def Let_def exponentPart_def scale10_def
          digitsVal_Nil del: dropWhile_eq_Nil_conv takeWhile_eq_Nil_iff)
  next
    case False
    with assms ip have h: "hd ?r = CHR ''.''" "tl ?r \<noteq> []" "list_all isDigit (tl ?r)"
      and v: "v = of_nat (digitsVal ?ip) + of_nat (digitsVal (tl ?r)) / 10 ^ length (tl ?r)"
      by (auto simp: spec_unsignedDecimal_def Let_def split: if_splits)
    from False h obtain ds where r: "?r = CHR ''.'' # ds" and ds: "ds \<noteq> []" "list_all isDigit ds"
      by (cases ?r) auto
    from ds have tw: "takeWhile isDigit ds = ds" "dropWhile isDigit ds = []"
      using all_digits_takeWhile by blast+
    from r ds(1) v noInf ip show ?thesis
      by (simp add: strUnsignedDecimalLiteral_def Let_def exponentPart_def scale10_def tw
          del: dropWhile_eq_Nil_conv takeWhile_eq_Nil_iff)
  qed
qed

lemma spec_unsigned_head: "spec_unsignedDecimal t = Some v \<Longrightarrow> \<exists>c u. t = c # u \<and> isDigit c"
  by (cases t) (auto simp: spec_unsignedDecimal_def Let_def split: if_splits)

lemma spec_decimal_agrees:
  assumes "spec_decimalValue t = Some v"
  shows "parseFloat t = fl v"
proof -
  from assms obtain c u where t: "t = c # u"
    by (cases t) (auto simp: spec_decimalValue_def)
  show ?thesis
  proof (cases "c = CHR ''-''")
    case True
    with assms t obtain w where w: "spec_unsignedDecimal u = Some w" and v: "v = - w"
      by (auto simp: spec_decimalValue_def)
    have "\<not> isWhiteSpace c" using True by (simp add: isWhiteSpace_def)
    with True t w v show ?thesis
      by (simp add: parseFloat_def spec_unsigned_agrees js_neg_fl)
  next
    case False
    with assms t have w: "spec_unsignedDecimal t = Some v"
      by (simp add: spec_decimalValue_def)
    then have "isDigit c" using spec_unsigned_head [OF w] t by simp
    then have "\<not> isWhiteSpace c" "c \<noteq> CHR ''+''" using isDigit_chars by blast+
    with False t w show ?thesis
      using spec_unsigned_agrees [OF w] by (simp add: parseFloat_def)
  qed
qed

lemma spec_parsePrice_agrees: "spec_parsePrice s = Some n \<Longrightarrow> parsePrice s = Some n"
  by (auto simp: spec_parsePrice_def parsePrice_def Let_def spec_decimal_agrees split: if_splits)

text \<open>Reading a literal of the grammar that is followed by something that does not continue it.\<close>

lemma takeWhile_digits_append:
  assumes "list_all isDigit ds" "noDigitAhead r"
  shows "takeWhile isDigit (ds @ r) = ds" and "dropWhile isDigit (ds @ r) = r"
  using assms by (induction ds) (auto simp: noDigitAhead_def split: list.splits)

lemma dropWhile_space_append:
  assumes "list_all isWhiteSpace ws" "x = c # u" "\<not> isWhiteSpace c"
  shows "dropWhile isWhiteSpace (ws @ x) = x"
  using assms by (induction ws) auto

lemma signedDigits_read:
  assumes "isSign sg" "ds \<noteq> []" "list_all isDigit ds" "noDigitAhead rest"
  shows "signedDigits (sg @ ds @ rest)
           = Some (if sg = ''-'' then - int (digitsVal ds) else int (digitsVal ds))"
proof -
  from assms(2,3) obtain d ds' where ds: "ds = d # ds'" and d: "isDigit d"
    by (cases ds) auto
  note tw = takeWhile_digits_append(1) [OF assms(3,4)]
  from assms(1) consider "sg = []" | "sg = ''+''" | "sg = ''-''"
    by (auto simp: isSign_def)
  then show ?thesis
  proof cases
    case 1
    have "signedDigits (ds @ rest) = Some (int (digitsVal (takeWhile isDigit (ds @ rest))))"
      using d isDigit_chars [of d] by (simp add: signedDigits_def ds)
    then show ?thesis using 1 by (simp add: tw)
  next
    case 2
    have "signedDigits (CHR ''+'' # ds @ rest)
            = Some (int (digitsVal (takeWhile isDigit (ds @ rest))))"
      using d by (simp add: signedDigits_def ds)
    then show ?thesis using 2 by (simp add: tw)
  next
    case 3
    have "signedDigits (CHR ''-'' # ds @ rest)
            = Some (- int (digitsVal (takeWhile isDigit (ds @ rest))))"
      using d by (simp add: signedDigits_def ds)
    then show ?thesis using 3 by (simp add: tw)
  qed
qed

lemma exponentPart_none: "\<not> startsExponent r \<Longrightarrow> exponentPart r = 0"
  by (auto simp: startsExponent_def exponentPart_def signedDigits_def
      split: list.splits if_splits)

lemma literalText_head:
  assumes "wellFormed l"
  shows "\<exists>c u. literalText l @ rest = c # u \<and> (isDigit c \<or> c = CHR ''.'')"
proof (cases "intDigits l")
  case Nil
  with assms obtain fp where "fracDigits l = Some fp"
    by (cases "fracDigits l") (auto simp: wellFormed_def)
  with Nil show ?thesis
    by (simp add: literalText_def)
next
  case (Cons d ds)
  with assms have "isDigit d"
    by (simp add: wellFormed_def)
  with Cons show ?thesis
    by (simp add: literalText_def)
qed

lemma strUnsigned_parts:
  assumes "\<not> startsWith t ''Infinity''"
    and "takeWhile isDigit t = ip" and "dropWhile isDigit t = r1"
    and "ip \<noteq> [] \<or> fp \<noteq> []"
    and "case r1 of
           [] \<Rightarrow> fp = [] \<and> r2 = []
         | c # u \<Rightarrow>
             if c = CHR ''.'' then takeWhile isDigit u = fp \<and> dropWhile isDigit u = r2
             else fp = [] \<and> r2 = r1"
  shows "strUnsignedDecimalLiteral t
           = fl (scale10 (of_nat (digitsVal ip) + of_nat (digitsVal fp) / 10 ^ length fp)
                   (exponentPart r2))"
proof (cases r1)
  case Nil
  with assms show ?thesis
    by (simp add: strUnsignedDecimalLiteral_def Let_def digitsVal_Nil
        del: dropWhile_eq_Nil_conv takeWhile_eq_Nil_iff)
next
  case (Cons c u)
  with assms show ?thesis
    by (cases "c = CHR ''.''")
      (auto simp add: strUnsignedDecimalLiteral_def Let_def digitsVal_Nil
        simp del: dropWhile_eq_Nil_conv takeWhile_eq_Nil_iff)
qed

lemma strUnsigned_literal:
  assumes wf: "wellFormed l" and ends: "endsLiteral l rest"
  shows "strUnsignedDecimalLiteral (literalText l @ rest) = fl (literalValue l)"
proof -
  define ex where "ex = (case expPart l of None \<Rightarrow> [] | Some (c, sg, ds) \<Rightarrow> c # sg @ ds)"
  define fr where "fr = (case fracDigits l of None \<Rightarrow> [] | Some fp \<Rightarrow> CHR ''.'' # fp)"
  define ev where "ev = (case expPart l of None \<Rightarrow> 0
      | Some (c, sg, ds) \<Rightarrow> if sg = ''-'' then - int (digitsVal ds) else int (digitsVal ds))"
  have lit: "literalText l @ rest = intDigits l @ fr @ ex @ rest"
    by (simp add: literalText_def fr_def ex_def)
  from ends have nd: "noDigitAhead rest"
    by (simp add: endsLiteral_def)
  have ip: "list_all isDigit (intDigits l)"
    using wf by (simp add: wellFormed_def)
  have nd_ex: "noDigitAhead (ex @ rest)"
  proof (cases "expPart l")
    case None
    then show ?thesis using nd by (simp add: ex_def)
  next
    case (Some e)
    with wf show ?thesis
      using isDigit_chars by (cases e) (auto simp: ex_def noDigitAhead_def wellFormed_def)
  qed
  have ex_val: "exponentPart (ex @ rest) = ev"
  proof (cases "expPart l")
    case None
    with ends have "\<not> startsExponent rest"
      by (simp add: endsLiteral_def)
    with None show ?thesis
      by (simp add: ex_def ev_def exponentPart_none)
  next
    case (Some e)
    obtain c sg ds where e: "e = (c, sg, ds)"
      by (cases e)
    with Some wf have c: "c = CHR ''e'' \<or> c = CHR ''E''" and sg: "isSign sg"
      and ds: "ds \<noteq> []" "list_all isDigit ds"
      by (simp_all add: wellFormed_def)
    have "exponentPart (c # sg @ ds @ rest)
            = (if sg = ''-'' then - int (digitsVal ds) else int (digitsVal ds))"
      using c signedDigits_read [OF sg ds nd] by (auto simp: exponentPart_def)
    with Some e show ?thesis
      by (simp add: ex_def ev_def)
  qed
  have nd_fr: "noDigitAhead (fr @ ex @ rest)"
    using nd_ex by (cases "fracDigits l") (simp_all add: fr_def noDigitAhead_def isDigit_def)
  note tw = takeWhile_digits_append [OF ip nd_fr]
  obtain c u where head: "literalText l @ rest = c # u" "isDigit c \<or> c = CHR ''.''"
    using literalText_head [OF wf] by blast
  then have noInf: "\<not> startsWith (intDigits l @ fr @ ex @ rest) ''Infinity''"
    using isDigit_chars [of c] unfolding lit by auto
  show ?thesis
  proof (cases "fracDigits l")
    case None
    with wf have nonempty: "intDigits l \<noteq> [] \<or> ([] :: string) \<noteq> []"
      by (simp add: wellFormed_def)
    have nopoint: "(case ex @ rest of [] \<Rightarrow> True | c # t \<Rightarrow> c \<noteq> CHR ''.'')"
    proof (cases "expPart l")
      case None
      with \<open>fracDigits l = None\<close> ends show ?thesis
        by (simp add: endsLiteral_def ex_def)
    next
      case (Some e)
      with wf show ?thesis
        by (cases e) (auto simp: ex_def wellFormed_def)
    qed
    have fr: "fr = []"
      using None by (simp add: fr_def)
    have shape: "case fr @ ex @ rest of
           [] \<Rightarrow> ([] :: string) = [] \<and> ex @ rest = []
         | c # u \<Rightarrow>
             if c = CHR ''.'' then takeWhile isDigit u = [] \<and> dropWhile isDigit u = ex @ rest
             else ([] :: string) = [] \<and> ex @ rest = fr @ ex @ rest"
      using nopoint unfolding fr by (cases "ex @ rest") simp_all
    have "strUnsignedDecimalLiteral (intDigits l @ fr @ ex @ rest)
            = fl (scale10 (of_nat (digitsVal (intDigits l)) + of_nat (digitsVal []) / 10 ^ length ([] :: string))
                   (exponentPart (ex @ rest)))"
      by (rule strUnsigned_parts [OF noInf tw nonempty shape])
    then show ?thesis
      using None by (simp add: lit literalValue_def ev_def ex_val digitsVal_Nil)
  next
    case (Some fp)
    with wf have fp: "list_all isDigit fp" and nonempty: "intDigits l \<noteq> [] \<or> fp \<noteq> []"
      by (simp_all add: wellFormed_def)
    note tw2 = takeWhile_digits_append [OF fp nd_ex]
    have fr: "fr = CHR ''.'' # fp"
      using Some by (simp add: fr_def)
    have shape: "case fr @ ex @ rest of
           [] \<Rightarrow> fp = [] \<and> ex @ rest = []
         | c # u \<Rightarrow>
             if c = CHR ''.'' then takeWhile isDigit u = fp \<and> dropWhile isDigit u = ex @ rest
             else fp = [] \<and> ex @ rest = fr @ ex @ rest"
      using tw2 unfolding fr by simp
    have "strUnsignedDecimalLiteral (intDigits l @ fr @ ex @ rest)
            = fl (scale10 (of_nat (digitsVal (intDigits l)) + of_nat (digitsVal fp) / 10 ^ length fp)
                   (exponentPart (ex @ rest)))"
      by (rule strUnsigned_parts [OF noInf tw nonempty shape])
    then show ?thesis
      using Some by (simp add: lit literalValue_def ev_def ex_val)
  qed
qed

lemma parseFloat_signed:
  assumes ws: "list_all isWhiteSpace ws" and sg: "isSign sg"
    and head: "body = c # u" "c \<noteq> CHR ''-''" "c \<noteq> CHR ''+''" "\<not> isWhiteSpace c"
  shows "parseFloat (ws @ sg @ body)
           = (if sg = ''-'' then js_neg (strUnsignedDecimalLiteral body)
              else strUnsignedDecimalLiteral body)"
proof -
  from sg consider "sg = []" | "sg = ''+''" | "sg = ''-''"
    by (auto simp: isSign_def)
  then show ?thesis
  proof cases
    case 1
    have "dropWhile isWhiteSpace (ws @ body) = body"
      using dropWhile_space_append [OF ws head(1) head(4)] .
    then show ?thesis
      using 1 head by (simp add: parseFloat_def)
  next
    case 2
    have "dropWhile isWhiteSpace (ws @ CHR ''+'' # body) = CHR ''+'' # body"
      by (rule dropWhile_space_append [OF ws refl]) (simp add: isWhiteSpace_def)
    then show ?thesis
      using 2 by (simp add: parseFloat_def)
  next
    case 3
    have "dropWhile isWhiteSpace (ws @ CHR ''-'' # body) = CHR ''-'' # body"
      by (rule dropWhile_space_append [OF ws refl]) (simp add: isWhiteSpace_def)
    then show ?thesis
      using 3 by (simp add: parseFloat_def)
  qed
qed

lemma literal_head_chars:
  "isDigit c \<or> c = CHR ''.'' \<Longrightarrow> c \<noteq> CHR ''-'' \<and> c \<noteq> CHR ''+'' \<and> \<not> isWhiteSpace c"
  by (auto simp: isDigit_def isWhiteSpace_def)

lemma parseFloat_literal:
  assumes "list_all isWhiteSpace ws" "isSign sg" "wellFormed l" "endsLiteral l rest"
  shows "parseFloat (ws @ sg @ literalText l @ rest)
           = fl (if sg = ''-'' then - literalValue l else literalValue l)"
proof -
  obtain c u where head: "literalText l @ rest = c # u" "isDigit c \<or> c = CHR ''.''"
    using literalText_head [OF assms(3)] by blast
  from head(2) have "c \<noteq> CHR ''-''" "c \<noteq> CHR ''+''" "\<not> isWhiteSpace c"
    using literal_head_chars [of c] by blast+
  from parseFloat_signed [OF assms(1,2) head(1) this]
  have "parseFloat (ws @ sg @ literalText l @ rest)
          = (if sg = ''-'' then js_neg (fl (literalValue l)) else fl (literalValue l))"
    unfolding strUnsigned_literal [OF assms(3,4)] .
  then show ?thesis
    unfolding js_neg_fl by (cases "sg = ''-''") simp_all
qed

lemma parseFloat_Infinity:
  assumes "list_all isWhiteSpace ws" "isSign sg"
  shows "parseFloat (ws @ sg @ ''Infinity'' @ rest) = (if sg = ''-'' then NegInf else PosInf)"
proof -
  have "strUnsignedDecimalLiteral (''Infinity'' @ rest) = PosInf"
    by (simp add: strUnsignedDecimalLiteral_def)
  moreover have "parseFloat (ws @ sg @ ''Infinity'' @ rest)
           = (if sg = ''-'' then js_neg (strUnsignedDecimalLiteral (''Infinity'' @ rest))
              else strUnsignedDecimalLiteral (''Infinity'' @ rest))"
    using parseFloat_signed [OF assms, of "''Infinity'' @ rest" "CHR ''I''" "''nfinity'' @ rest"]
    by (simp add: isWhiteSpace_def)
  ultimately show ?thesis
    by simp
qed

lemma parsePrice_parseFloat:
  assumes "s \<noteq> ''N/A''" "removeCommas s \<noteq> []" "parseFloat (removeCommas s) = n" "n \<noteq> NaN"
  shows "parsePrice s = Some n"
proof -
  from assms(2) have "s \<noteq> []"
    by (auto simp: removeCommas_def)
  with assms show ?thesis
    by (simp add: parsePrice_def Let_def)
qed

text \<open>Every text in which the parser finds a number starts with such a literal, or with \<^verbatim>\<open>Infinity\<close>.\<close>

lemma digits_takeWhile: "list_all isDigit (takeWhile isDigit xs)"
  by (induction xs) simp_all

lemma noDigitAhead_dropWhile: "noDigitAhead (dropWhile isDigit xs)"
  by (induction xs) (simp_all add: noDigitAhead_def)

lemma exponent_exists:
  assumes "noDigitAhead r"
  shows "\<exists>e rest.
     r = (case e of None \<Rightarrow> [] | Some (c, sg, ds) \<Rightarrow> c # sg @ ds) @ rest
     \<and> (case e of
           None \<Rightarrow> rest = r \<and> \<not> startsExponent rest
         | Some (c, sg, ds) \<Rightarrow>
             (c = CHR ''e'' \<or> c = CHR ''E'') \<and> isSign sg \<and> ds \<noteq> [] \<and> list_all isDigit ds)
     \<and> noDigitAhead rest"
proof (cases "startsExponent r")
  case False
  with assms show ?thesis
    by (intro exI [of _ None] exI [of _ r]) simp
next
  case True
  then obtain c d u where r: "r = c # d # u" and c: "c = CHR ''e'' \<or> c = CHR ''E''"
    and d: "isDigit d \<or> ((d = CHR ''+'' \<or> d = CHR ''-'')
              \<and> (case u of [] \<Rightarrow> False | d2 # v \<Rightarrow> isDigit d2))"
    by (auto simp: startsExponent_def split: list.splits)
  show ?thesis
  proof (cases "isDigit d")
    case True
    let ?ds = "takeWhile isDigit (d # u)" and ?rest = "dropWhile isDigit (d # u)"
    have "r = c # [] @ ?ds @ ?rest"
      unfolding r by (simp del: takeWhile.simps dropWhile.simps)
    moreover have "?ds \<noteq> []"
      using True by simp
    moreover have "list_all isDigit ?ds"
      by (rule digits_takeWhile)
    moreover have "noDigitAhead ?rest"
      by (rule noDigitAhead_dropWhile)
    ultimately show ?thesis
      using c by (intro exI [of _ "Some (c, [], ?ds)"] exI [of _ ?rest]) (simp add: isSign_def)
  next
    case False
    with d obtain d2 v where sign: "d = CHR ''+'' \<or> d = CHR ''-''" and u: "u = d2 # v"
      and d2: "isDigit d2"
      by (cases u) auto
    let ?ds = "takeWhile isDigit u" and ?rest = "dropWhile isDigit u"
    have "r = c # [d] @ ?ds @ ?rest"
      unfolding r by simp
    moreover have "?ds \<noteq> []"
      using u d2 by simp
    moreover have "list_all isDigit ?ds"
      by (rule digits_takeWhile)
    moreover have "noDigitAhead ?rest"
      by (rule noDigitAhead_dropWhile)
    moreover have "isSign [d]"
      using sign by (auto simp: isSign_def)
    ultimately show ?thesis
      using c by (intro exI [of _ "Some (c, [d], ?ds)"] exI [of _ ?rest]) simp
  qed
qed

lemma literal_exists:
  assumes start: "startsNumber b" and noInf: "\<not> startsWith b ''Infinity''"
  shows "\<exists>l rest. b = literalText l @ rest \<and> wellFormed l \<and> endsLiteral l rest"
proof -
  let ?ip = "takeWhile isDigit b" and ?r1 = "dropWhile isDigit b"
  have b: "b = ?ip @ ?r1"
    by simp
  have ip: "list_all isDigit ?ip"
    by (rule digits_takeWhile)
  from start noInf obtain c v where bc: "b = c # v"
    and head: "isDigit c \<or> (c = CHR ''.'' \<and> (case v of [] \<Rightarrow> False | d # w \<Rightarrow> isDigit d))"
    by (cases b) (auto simp: startsNumber_def)
  show ?thesis
  proof (cases "\<exists>u. ?r1 = CHR ''.'' # u")
    case True
    then obtain u where r1: "?r1 = CHR ''.'' # u"
      by blast
    let ?fp = "takeWhile isDigit u" and ?r2 = "dropWhile isDigit u"
    have fp: "list_all isDigit ?fp"
      by (rule digits_takeWhile)
    have nonempty: "?ip \<noteq> [] \<or> ?fp \<noteq> []"
    proof (cases "isDigit c")
      case True
      then show ?thesis by (simp add: bc)
    next
      case False
      with head bc r1 show ?thesis
        by (auto split: list.splits)
    qed
    obtain e rest where e: "?r2 = (case e of None \<Rightarrow> [] | Some (c, sg, ds) \<Rightarrow> c # sg @ ds) @ rest"
      and wfe: "case e of
           None \<Rightarrow> rest = ?r2 \<and> \<not> startsExponent rest
         | Some (c, sg, ds) \<Rightarrow>
             (c = CHR ''e'' \<or> c = CHR ''E'') \<and> isSign sg \<and> ds \<noteq> [] \<and> list_all isDigit ds"
      and nd: "noDigitAhead rest"
      using exponent_exists [OF noDigitAhead_dropWhile [of u]] by blast
    define l where "l = \<lparr>intDigits = ?ip, fracDigits = Some ?fp, expPart = e\<rparr>"
    have "u = ?fp @ ?r2"
      by simp
    with e have "u = ?fp @ (case e of None \<Rightarrow> [] | Some (c, sg, ds) \<Rightarrow> c # sg @ ds) @ rest"
      by simp
    with b r1 have "b = literalText l @ rest"
      by (simp add: literalText_def l_def del: takeWhile_dropWhile_id)
    moreover have "wellFormed l"
      using ip fp nonempty wfe by (cases e) (auto simp: wellFormed_def l_def)
    moreover have "endsLiteral l rest"
      using nd wfe by (cases e) (auto simp: endsLiteral_def l_def)
    ultimately show ?thesis
      by blast
  next
    case False
    have nopoint: "case ?r1 of [] \<Rightarrow> True | c # t \<Rightarrow> c \<noteq> CHR ''.''"
    proof (cases ?r1)
      case Nil
      show ?thesis unfolding Nil by simp
    next
      case (Cons d t)
      with False have "d \<noteq> CHR ''.''"
        by blast
      then show ?thesis unfolding Cons by simp
    qed
    have nonempty: "?ip \<noteq> []"
    proof (cases "isDigit c")
      case True
      then show ?thesis by (simp add: bc)
    next
      case nd: False
      with head bc have "?r1 = CHR ''.'' # v"
        by simp
      with False show ?thesis
        by blast
    qed
    obtain e rest where e: "?r1 = (case e of None \<Rightarrow> [] | Some (c, sg, ds) \<Rightarrow> c # sg @ ds) @ rest"
      and wfe: "case e of
           None \<Rightarrow> rest = ?r1 \<and> \<not> startsExponent rest
         | Some (c, sg, ds) \<Rightarrow>
             (c = CHR ''e'' \<or> c = CHR ''E'') \<and> isSign sg \<and> ds \<noteq> [] \<and> list_all isDigit ds"
      and nd: "noDigitAhead rest"
      using exponent_exists [OF noDigitAhead_dropWhile [of b]] by blast
    define l where "l = \<lparr>intDigits = ?ip, fracDigits = None, expPart = e\<rparr>"
    from b e have "b = ?ip @ (case e of None \<Rightarrow> [] | Some (c, sg, ds) \<Rightarrow> c # sg @ ds) @ rest"
      by simp
    then have "b = literalText l @ rest"
      by (simp add: literalText_def l_def del: takeWhile_dropWhile_id)
    moreover have "wellFormed l"
      using ip nonempty wfe by (cases e) (auto simp: wellFormed_def l_def)
    moreover have "endsLiteral l rest"
      using nd wfe nopoint by (cases e) (auto simp: endsLiteral_def l_def)
    ultimately show ?thesis
      by blast
  qed
qed

lemma startsWith_append: "startsWith b p \<Longrightarrow> \<exists>rest. b = p @ rest"
  by (induction b p rule: startsWith.induct) auto

lemma numericPrefix_exists:
  assumes "hasNumericPrefix t"
  shows "(\<exists>ws sg rest. t = ws @ sg @ ''Infinity'' @ rest \<and> list_all isWhiteSpace ws \<and> isSign sg)
       \<or> (\<exists>ws sg l rest. t = ws @ sg @ literalText l @ rest \<and> list_all isWhiteSpace ws
             \<and> isSign sg \<and> wellFormed l \<and> endsLiteral l rest)"
proof -
  let ?ws = "takeWhile isWhiteSpace t"
  have ws: "list_all isWhiteSpace ?ws"
    by (induction t) simp_all
  from assms obtain c u where x: "dropWhile isWhiteSpace t = c # u"
    by (cases "dropWhile isWhiteSpace t") (simp_all add: hasNumericPrefix_def)
  have t: "t = ?ws @ c # u"
    using x takeWhile_dropWhile_id [of isWhiteSpace t] by simp
  define sg where "sg = (if c = CHR ''-'' \<or> c = CHR ''+'' then [c] else [])"
  define b where "b = (if c = CHR ''-'' \<or> c = CHR ''+'' then u else c # u)"
  have sg: "isSign sg" and cu: "c # u = sg @ b"
    by (auto simp: sg_def b_def isSign_def)
  have start: "startsNumber b"
    using assms x by (auto simp: hasNumericPrefix_def b_def split: if_splits)
  show ?thesis
  proof (cases "startsWith b ''Infinity''")
    case True
    then obtain rest where "b = ''Infinity'' @ rest"
      using startsWith_append by blast
    with t cu ws sg show ?thesis
      by (intro disjI1 exI [of _ ?ws] exI [of _ sg] exI [of _ rest]) simp
  next
    case False
    from literal_exists [OF start False] obtain l rest
      where "b = literalText l @ rest" "wellFormed l" "endsLiteral l rest"
      by blast
    with t cu ws sg show ?thesis
      by (intro disjI2 exI [of _ ?ws] exI [of _ sg] exI [of _ l] exI [of _ rest]) simp
  qed
qed

text \<open>
  Claim C1, as stated: the price parser returns null exactly when the cell is empty, is
  the marker \<open>N/A\<close>, or is not a decimal number once the commas are removed, and returns
  the decimal value otherwise. The cell \<open>12abc\<close> refutes it: it is not a decimal number,
  and the parser returns \<open>12\<close>, the value of its leading digits.
\<close>

theorem parsePrice_trailing_text_counterexample:
  "spec_decimalValue (removeCommas ''12abc'') = None
   \<and> spec_parsePrice ''12abc'' = None
   \<and> parsePrice ''12abc'' = Some (Fin 12)"
  by (simp add: spec_parsePrice_def spec_decimalValue_def spec_unsignedDecimal_def parse_eval
      fl_eval)

text \<open>
  Claim C1, amended. The price parser returns null exactly when the cell is empty, is
  the marker \<open>N/A\<close>, or, once the commas are removed and the leading white space is
  skipped, does not begin with a number (an optional sign followed by \<open>Infinity\<close>, a
  digit, or a point and a digit). Otherwise it returns the number read from that
  beginning and ignores what follows: whenever the cell without its commas is white
  space, an optional sign, a number literal (digits, optionally a point and digits, not
  both runs of digits empty, optionally an exponent) and a rest that does not continue
  the literal, the result is the double nearest to the signed decimal value of the
  literal; whenever it is white space, an optional sign, \<open>Infinity\<close> and any rest, the
  result is the infinity of that sign; and every cell with a result that is not null is
  of one of these two forms. Whenever the cell without its commas is a decimal number as
  a whole, the result is the double nearest to its decimal value. The cell \<open>0\<close> parses to
  the number \<open>0\<close> and \<open>N/A\<close> to null, and the result is never \<open>NaN\<close>.
\<close>

theorem parsePrice_leading_number:
  "(parsePrice s = None) = (s = [] \<or> s = ''N/A'' \<or> \<not> hasNumericPrefix (removeCommas s))
   \<and> (\<forall>ws sg l rest.
         removeCommas s = ws @ sg @ literalText l @ rest \<and> list_all isWhiteSpace ws
         \<and> isSign sg \<and> wellFormed l \<and> endsLiteral l rest
         \<longrightarrow> parsePrice s = Some (fl (if sg = ''-'' then - literalValue l else literalValue l)))
   \<and> (\<forall>ws sg rest.
         removeCommas s = ws @ sg @ ''Infinity'' @ rest \<and> list_all isWhiteSpace ws \<and> isSign sg
         \<longrightarrow> parsePrice s = Some (if sg = ''-'' then NegInf else PosInf))
   \<and> (parsePrice s \<noteq> None \<longrightarrow>
         (\<exists>ws sg rest.
            removeCommas s = ws @ sg @ ''Infinity'' @ rest \<and> list_all isWhiteSpace ws
            \<and> isSign sg)
         \<or> (\<exists>ws sg l rest.
            removeCommas s = ws @ sg @ literalText l @ rest \<and> list_all isWhiteSpace ws
            \<and> isSign sg \<and> wellFormed l \<and> endsLiteral l rest))
   \<and> (\<forall>n. spec_parsePrice s = Some n \<longrightarrow> parsePrice s = Some n)
   \<and> parsePrice s \<noteq> Some NaN
   \<and> parsePrice ''0'' = Some (Fin 0)
   \<and> parsePrice ''N/A'' = None"
proof -
  have zero: "parsePrice ''0'' = Some (Fin 0)"
    by (simp add: parse_eval fl_def)
  have na: "parsePrice ''N/A'' = None"
    by (simp add: parsePrice_def)
  have nan: "parsePrice s \<noteq> Some NaN"
    by (simp add: parsePrice_def Let_def)
  have marker: "parseFloat (removeCommas ''N/A'') = NaN"
    by (simp add: parse_eval)
  have found: "parsePrice s = Some n"
    if pf: "parseFloat (removeCommas s) = n" and n: "n \<noteq> NaN" for n
  proof -
    from pf n marker have "s \<noteq> ''N/A''"
      by auto
    moreover from pf n have "removeCommas s \<noteq> []"
      by (auto simp: parseFloat_def)
    ultimately show ?thesis
      using pf n by (rule parsePrice_parseFloat)
  qed
  have literal: "parsePrice s = Some (fl (if sg = ''-'' then - literalValue l else literalValue l))"
    if "removeCommas s = ws @ sg @ literalText l @ rest \<and> list_all isWhiteSpace ws
         \<and> isSign sg \<and> wellFormed l \<and> endsLiteral l rest" for ws sg l rest
  proof (rule found)
    from that show "parseFloat (removeCommas s)
        = fl (if sg = ''-'' then - literalValue l else literalValue l)"
      using parseFloat_literal [of ws sg l rest] by simp
    show "fl (if sg = ''-'' then - literalValue l else literalValue l) \<noteq> NaN"
      by (rule fl_not_NaN)
  qed
  have infinity: "parsePrice s = Some (if sg = ''-'' then NegInf else PosInf)"
    if "removeCommas s = ws @ sg @ ''Infinity'' @ rest \<and> list_all isWhiteSpace ws \<and> isSign sg"
    for ws sg rest
  proof (rule found)
    from that show "parseFloat (removeCommas s) = (if sg = ''-'' then NegInf else PosInf)"
      using parseFloat_Infinity [of ws sg rest] by simp
    show "(if sg = ''-'' then NegInf else PosInf) \<noteq> NaN"
      by simp
  qed
  have forms: "(\<exists>ws sg rest.
            removeCommas s = ws @ sg @ ''Infinity'' @ rest \<and> list_all isWhiteSpace ws
            \<and> isSign sg)
         \<or> (\<exists>ws sg l rest.
            removeCommas s = ws @ sg @ literalText l @ rest \<and> list_all isWhiteSpace ws
            \<and> isSign sg \<and> wellFormed l \<and> endsLiteral l rest)"
    if "parsePrice s \<noteq> None"
  proof -
    from that have "hasNumericPrefix (removeCommas s)"
      by (simp add: parsePrice_None)
    then show ?thesis
      by (rule numericPrefix_exists)
  qed
  from parsePrice_None [of s] literal infinity forms spec_parsePrice_agrees [of s] nan zero na
  show ?thesis
    by blast
qed

theorem parsePrice_leading_number_witness:
  "removeCommas '' -1,234.5e1 kg'' = '' '' @ ''-'' @ literalText sample_literal @ '' kg''
   \<and> list_all isWhiteSpace '' '' \<and> isSign ''-'' \<and> wellFormed sample_literal
   \<and> endsLiteral sample_literal '' kg''
   \<and> parsePrice '' -1,234.5e1 kg'' = Some (Fin (- 12345))
   \<and> spec_parsePrice ''1,234.50'' = Some (Fin (2469 / 2))
   \<and> parsePrice ''1,234.50'' = Some (Fin (2469 / 2))
   \<and> hasNumericPrefix (removeCommas ''1,234.50'')"
proof -
  have form: "removeCommas '' -1,234.5e1 kg'' = '' '' @ ''-'' @ literalText sample_literal @ '' kg''
      \<and> list_all isWhiteSpace '' '' \<and> isSign ''-'' \<and> wellFormed sample_literal
      \<and> endsLiteral sample_literal '' kg''"
    by (simp add: removeCommas_def literalText_def sample_literal_def isWhiteSpace_def
        isSign_def wellFormed_def endsLiteral_def noDigitAhead_def isDigit_def)
  have val: "fl (if ''-'' = ''-'' then - literalValue sample_literal
                 else literalValue sample_literal) = Fin (- 12345)"
    by (simp add: literalValue_def sample_literal_def digitsVal_def digitVal_def scale10_def
        fl_eval)
  have spec: "spec_parsePrice ''1,234.50'' = Some (Fin (2469 / 2))"
    by (simp add: spec_parsePrice_def spec_decimalValue_def spec_unsignedDecimal_def
        removeCommas_def isDigit_def digitsVal_def digitVal_def fl_eval)
  note t1 = parsePrice_leading_number [of "'' -1,234.5e1 kg''"]
  note t2 = parsePrice_leading_number [of "''1,234.50''"]
  from form conjunct1 [OF conjunct2 [OF t1]]
  have "parsePrice '' -1,234.5e1 kg''
          = Some (fl (if ''-'' = ''-'' then - literalValue sample_literal
                      else literalValue sample_literal))"
    by blast
  then have p1: "parsePrice '' -1,234.5e1 kg'' = Some (Fin (- 12345))"
    unfolding val .
  from spec t2 have p2: "parsePrice ''1,234.50'' = Some (Fin (2469 / 2))"
    by blast
  with t2 have p3: "hasNumericPrefix (removeCommas ''1,234.50'')"
    by (simp add: removeCommas_def)
  from form p1 spec p2 p3 show ?thesis
    by blast
qed

subsection \<open>The statistics of a row of price cells\<close>

lemma parsePrice_not_NaN: "parsePrice c \<noteq> Some NaN"
  by (simp add: parsePrice_def Let_def)

lemma parsedPrices_not_NaN: "n \<in> set (parsedPrices prices) \<Longrightarrow> n \<noteq> NaN"
  using parsePrice_not_NaN by (auto simp: parsedPrices_def)

lemma parsedPrices_Nil: "(parsedPrices prices = []) = (\<forall>c \<in> set prices. parsePrice c = None)"
  by (auto simp: parsedPrices_def filter_empty_conv)

lemma js_le_refl: "a \<noteq> NaN \<Longrightarrow> js_le a a"
  by (simp add: js_le_def)

lemma js_less_trans: "js_less a b \<Longrightarrow> js_less b c \<Longrightarrow> js_less a c"
  by (cases a; cases b; cases c) auto

lemma js_le_trans: "js_le a b \<Longrightarrow> js_le b c \<Longrightarrow> js_le a c"
  unfolding js_le_def using js_less_trans by blast

lemma js_less_total: "a \<noteq> NaN \<Longrightarrow> b \<noteq> NaN \<Longrightarrow> \<not> js_less b a \<Longrightarrow> js_le a b"
  unfolding js_le_def by (cases a; cases b) auto

lemma js_less_imp_le: "js_less a b \<Longrightarrow> js_le a b"
  unfolding js_le_def by (cases a; cases b) auto

lemma min2_props:
  assumes "a \<noteq> NaN" "b \<noteq> NaN"
  shows "min2 a b \<noteq> NaN" "min2 a b = a \<or> min2 a b = b" "js_le (min2 a b) a" "js_le (min2 a b) b"
  using assms js_less_total [of a b] js_less_imp_le [of b a]
  by (auto simp: min2_def js_le_refl)

lemma max2_props:
  assumes "a \<noteq> NaN" "b \<noteq> NaN"
  shows "max2 a b \<noteq> NaN" "max2 a b = a \<or> max2 a b = b" "js_le a (max2 a b)" "js_le b (max2 a b)"
  using assms js_less_total [of b a] js_less_imp_le [of a b]
  by (auto simp: max2_def js_le_refl)

lemma foldl_min2:
  assumes "a \<noteq> NaN" "\<forall>x \<in> set xs. x \<noteq> NaN"
  shows "foldl min2 a xs \<noteq> NaN \<and> foldl min2 a xs \<in> insert a (set xs)
         \<and> js_le (foldl min2 a xs) a \<and> (\<forall>x \<in> set xs. js_le (foldl min2 a xs) x)"
  using assms
proof (induction xs arbitrary: a)
  case Nil
  then show ?case by (simp add: js_le_refl)
next
  case (Cons x xs)
  then have x: "x \<noteq> NaN" and xs: "\<forall>y \<in> set xs. y \<noteq> NaN" by simp_all
  note m = min2_props [OF Cons.prems(1) x]
  note ih = Cons.IH [OF m(1) xs]
  from ih have le: "js_le (foldl min2 (min2 a x) xs) (min2 a x)" by blast
  have "js_le (foldl min2 (min2 a x) xs) a" "js_le (foldl min2 (min2 a x) xs) x"
    using le m(3,4) js_le_trans by blast+
  moreover have "foldl min2 (min2 a x) xs \<in> insert a (set (x # xs))"
    using ih m(2) by auto
  ultimately show ?case using ih by simp
qed

lemma foldl_max2:
  assumes "a \<noteq> NaN" "\<forall>x \<in> set xs. x \<noteq> NaN"
  shows "foldl max2 a xs \<noteq> NaN \<and> foldl max2 a xs \<in> insert a (set xs)
         \<and> js_le a (foldl max2 a xs) \<and> (\<forall>x \<in> set xs. js_le x (foldl max2 a xs))"
  using assms
proof (induction xs arbitrary: a)
  case Nil
  then show ?case by (simp add: js_le_refl)
next
  case (Cons x xs)
  then have x: "x \<noteq> NaN" and xs: "\<forall>y \<in> set xs. y \<noteq> NaN" by simp_all
  note m = max2_props [OF Cons.prems(1) x]
  note ih = Cons.IH [OF m(1) xs]
  from ih have le: "js_le (max2 a x) (foldl max2 (max2 a x) xs)" by blast
  have "js_le a (foldl max2 (max2 a x) xs)" "js_le x (foldl max2 (max2 a x) xs)"
    using le m(3,4) js_le_trans by blast+
  moreover have "foldl max2 (max2 a x) xs \<in> insert a (set (x # xs))"
    using ih m(2) by auto
  ultimately show ?case using ih by simp
qed

lemma js_le_PosInf: "js_le PosInf x \<Longrightarrow> x = PosInf"
  by (cases x) (auto simp: js_le_def)

lemma js_le_NegInf: "js_le x NegInf \<Longrightarrow> x = NegInf"
  by (cases x) (auto simp: js_le_def)

lemma Math_min_least:
  assumes "xs \<noteq> []" "\<forall>x \<in> set xs. x \<noteq> NaN"
  shows "Math_min xs \<in> set xs \<and> (\<forall>x \<in> set xs. js_le (Math_min xs) x)"
proof -
  have f: "foldl min2 PosInf xs \<in> insert PosInf (set xs)"
    "\<forall>x \<in> set xs. js_le (foldl min2 PosInf xs) x"
    using foldl_min2 [of PosInf xs] assms(2) by simp_all
  have "foldl min2 PosInf xs \<in> set xs"
  proof (cases "foldl min2 PosInf xs = PosInf")
    case True
    from assms(1) obtain x where x: "x \<in> set xs" by (cases xs) auto
    with f(2) True have "x = PosInf" using js_le_PosInf by auto
    with x True show ?thesis by simp
  next
    case False
    with f(1) show ?thesis by simp
  qed
  with f(2) show ?thesis by (simp add: Math_min_def)
qed

lemma Math_max_greatest:
  assumes "xs \<noteq> []" "\<forall>x \<in> set xs. x \<noteq> NaN"
  shows "Math_max xs \<in> set xs \<and> (\<forall>x \<in> set xs. js_le x (Math_max xs))"
proof -
  have f: "foldl max2 NegInf xs \<in> insert NegInf (set xs)"
    "\<forall>x \<in> set xs. js_le x (foldl max2 NegInf xs)"
    using foldl_max2 [of NegInf xs] assms(2) by simp_all
  have "foldl max2 NegInf xs \<in> set xs"
  proof (cases "foldl max2 NegInf xs = NegInf")
    case True
    from assms(1) obtain x where x: "x \<in> set xs" by (cases xs) auto
    with f(2) True have "x = NegInf" using js_le_NegInf by auto
    with x True show ?thesis by simp
  next
    case False
    with f(1) show ?thesis by simp
  qed
  with f(2) show ?thesis by (simp add: Math_max_def)
qed


lemma getPriceStats_None: "(getPriceStats prices = None) = (\<forall>c \<in> set prices. parsePrice c = None)"
  using parsedPrices_Nil [of prices] by (simp add: getPriceStats_def Let_def)

lemma getPriceStats_Some:
  assumes "getPriceStats prices = Some st"
  shows "stat_count st = length (parsedPrices prices)"
    and "0 < stat_count st"
    and "stat_min st = Math_min (parsedPrices prices)"
    and "stat_max st = Math_max (parsedPrices prices)"
    and "stat_avg st = js_div (js_sum (parsedPrices prices)) (Fin (of_nat (stat_count st)))"
    and "stat_spread st =
           (if js_less (Fin 0) (stat_min st)
            then js_mul (js_div (js_sub (stat_max st) (stat_min st)) (stat_min st)) (Fin 100)
            else Fin 0)"
  using assms by (auto simp: getPriceStats_def Let_def js_sum_def split: if_splits)

text \<open>
  Claim C4. For every list of price cells, the statistics of the row are null exactly
  when no cell parses to a number. Otherwise the count is the number of parsed numbers
  and is positive, the minimum and the maximum are parsed numbers of the row that bound
  all of them, and the mean is their sum, added from the left, divided by their count.
  The spread is \<open>(max - min) / min * 100\<close> when \<open>min > 0\<close>, where the divisor is not zero,
  and it is \<open>0\<close> otherwise, so when \<open>min\<close> is \<open>0\<close>. Sums, differences, quotients and
  products are those of doubles, each rounded to the nearest double.
\<close>

theorem getPriceStats_row:
  "(getPriceStats prices = None) = (\<forall>c \<in> set prices. parsePrice c = None)
   \<and> (\<forall>st. getPriceStats prices = Some st \<longrightarrow>
         stat_count st = length (parsedPrices prices) \<and> 0 < stat_count st
         \<and> stat_min st \<in> set (parsedPrices prices)
         \<and> (\<forall>n \<in> set (parsedPrices prices). js_le (stat_min st) n)
         \<and> stat_max st \<in> set (parsedPrices prices)
         \<and> (\<forall>n \<in> set (parsedPrices prices). js_le n (stat_max st))
         \<and> stat_avg st = js_div (js_sum (parsedPrices prices)) (Fin (of_nat (stat_count st)))
         \<and> (js_less (Fin 0) (stat_min st) \<longrightarrow>
               stat_min st \<noteq> Fin 0
               \<and> stat_spread st =
                   js_mul (js_div (js_sub (stat_max st) (stat_min st)) (stat_min st)) (Fin 100))
         \<and> (\<not> js_less (Fin 0) (stat_min st) \<longrightarrow> stat_spread st = Fin 0)
         \<and> (stat_min st = Fin 0 \<longrightarrow> stat_spread st = Fin 0))"
proof (intro conjI allI impI)
  show "(getPriceStats prices = None) = (\<forall>c \<in> set prices. parsePrice c = None)"
    by (rule getPriceStats_None)
next
  fix st
  assume st: "getPriceStats prices = Some st"
  note s = getPriceStats_Some [OF st]
  from s(1,2) have ne: "parsedPrices prices \<noteq> []" by auto
  have nn: "\<forall>x \<in> set (parsedPrices prices). x \<noteq> NaN"
    using parsedPrices_not_NaN by blast
  note mn = Math_min_least [OF ne nn]
  note mx = Math_max_greatest [OF ne nn]
  show "stat_count st = length (parsedPrices prices)" by (rule s(1))
  show "0 < stat_count st" by (rule s(2))
  show "stat_min st \<in> set (parsedPrices prices)" using mn s(3) by simp
  show "\<forall>n \<in> set (parsedPrices prices). js_le (stat_min st) n" using mn s(3) by simp
  show "stat_max st \<in> set (parsedPrices prices)" using mx s(4) by simp
  show "\<forall>n \<in> set (parsedPrices prices). js_le n (stat_max st)" using mx s(4) by simp
  show "stat_avg st = js_div (js_sum (parsedPrices prices)) (Fin (of_nat (stat_count st)))"
    by (rule s(5))
  show "stat_spread st = Fin 0" if "stat_min st = Fin 0"
    using s(6) that by simp
  show "stat_spread st = Fin 0" if "\<not> js_less (Fin 0) (stat_min st)"
    using s(6) that by simp
  show "stat_min st \<noteq> Fin 0" if "js_less (Fin 0) (stat_min st)"
    using that by auto
  show "stat_spread st =
      js_mul (js_div (js_sub (stat_max st) (stat_min st)) (stat_min st)) (Fin 100)"
    if "js_less (Fin 0) (stat_min st)"
    using s(6) that by simp
qed

theorem getPriceStats_row_witness:
  "getPriceStats [''24.00'', ''N/A'', ''26.40'', ''x''] =
       Some \<lparr>stat_min = Fin 24, stat_max = Fin (3715469692580659 / 140737488355328),
             stat_avg = Fin (7093169413108531 / 281474976710656),
             stat_spread = Fin (1407374883553279 / 140737488355328), stat_count = 2\<rparr>
   \<and> js_less (Fin 0) (Fin 24)
   \<and> getPriceStats [''0.1'', ''0.2''] =
       Some \<lparr>stat_min = Fin (3602879701896397 / 36028797018963968),
             stat_max = Fin (3602879701896397 / 18014398509481984),
             stat_avg = Fin (1351079888211149 / 9007199254740992),
             stat_spread = Fin 100, stat_count = 2\<rparr>
   \<and> getPriceStats [''1e-400'', ''5''] =
       Some \<lparr>stat_min = Fin 0, stat_max = Fin 5, stat_avg = Fin (5 / 2),
             stat_spread = Fin 0, stat_count = 2\<rparr>"
proof -
  let ?m = "3715469692580659 / 140737488355328 :: rat"
  let ?a = "3602879701896397 / 36028797018963968 :: rat"
  let ?b = "3602879701896397 / 18014398509481984 :: rat"
  have p1: "parsedPrices [''24.00'', ''N/A'', ''26.40'', ''x''] = [Fin 24, Fin ?m]"
    by (simp add: parsedPrices_def parse_eval fl_eval)
  have p2: "parsedPrices [''0.1'', ''0.2''] = [Fin ?a, Fin ?b]"
    by (simp add: parsedPrices_def parse_eval fl_eval)
  have p3: "parsedPrices [''1e-400'', ''5''] = [Fin 0, Fin 5]"
    by (simp add: parsedPrices_def parse_eval fl_eval)
  have some: "\<exists>st. getPriceStats ps = Some st" if "parsedPrices ps \<noteq> []" for ps
    using that by (simp add: getPriceStats_def Let_def)
  have row: "st = \<lparr>stat_min = mn, stat_max = mx,
        stat_avg = js_div (js_sum [mn, mx]) (Fin 2),
        stat_spread = (if js_less (Fin 0) mn then js_mul (js_div (js_sub mx mn) mn) (Fin 100)
                       else Fin 0),
        stat_count = 2\<rparr>"
    if st: "getPriceStats ps = Some st" and ps: "parsedPrices ps = [mn, mx]"
      and le: "js_less mn mx" for ps st mn mx
  proof -
    note t = conjunct2 [OF getPriceStats_row [of ps], rule_format, OF st]
    from t ps have cnt: "stat_count st = 2"
      by simp
    from t ps have "stat_min st = mn \<or> stat_min st = mx" "js_le (stat_min st) mn"
      by auto
    with le have mn: "stat_min st = mn"
      by (cases mn; cases mx) (auto simp: js_le_def)
    from t ps have "stat_max st = mn \<or> stat_max st = mx" "js_le mx (stat_max st)"
      by auto
    with le have mx: "stat_max st = mx"
      by (cases mn; cases mx) (auto simp: js_le_def)
    from t ps cnt have avg: "stat_avg st = js_div (js_sum [mn, mx]) (Fin 2)"
      by simp
    from t mn mx have "stat_spread st =
        (if js_less (Fin 0) mn then js_mul (js_div (js_sub mx mn) mn) (Fin 100) else Fin 0)"
      by auto
    with cnt mn mx avg show ?thesis
      by (cases st) simp
  qed
  obtain s1 where s1: "getPriceStats [''24.00'', ''N/A'', ''26.40'', ''x''] = Some s1"
    using some [of "[''24.00'', ''N/A'', ''26.40'', ''x'']"] p1 by auto
  obtain s2 where s2: "getPriceStats [''0.1'', ''0.2''] = Some s2"
    using some [of "[''0.1'', ''0.2'']"] p2 by auto
  obtain s3 where s3: "getPriceStats [''1e-400'', ''5''] = Some s3"
    using some [of "[''1e-400'', ''5'']"] p3 by auto
  have r1: "s1 = \<lparr>stat_min = Fin 24, stat_max = Fin ?m,
             stat_avg = Fin (7093169413108531 / 281474976710656),
             stat_spread = Fin (1407374883553279 / 140737488355328), stat_count = 2\<rparr>"
    using row [OF s1 p1] by (simp add: js_sum_def js_sub_def fl_eval)
  have r2: "s2 = \<lparr>stat_min = Fin ?a, stat_max = Fin ?b,
             stat_avg = Fin (1351079888211149 / 9007199254740992),
             stat_spread = Fin 100, stat_count = 2\<rparr>"
    using row [OF s2 p2] by (simp add: js_sum_def js_sub_def fl_eval)
  have r3: "s3 = \<lparr>stat_min = Fin 0, stat_max = Fin 5, stat_avg = Fin (5 / 2),
             stat_spread = Fin 0, stat_count = 2\<rparr>"
    using row [OF s3 p3] by (simp add: js_sum_def js_sub_def fl_eval)
  from s1 s2 s3 r1 r2 r3 show ?thesis
    by simp
qed

subsection \<open>The aggregator's metrics\<close>

lemma take_rev_sum:
  fixes xs :: "rat list"
  shows "sum_list (take W (rev xs)) = sum_list (drop (length xs - W) xs)"
  by (simp add: take_rev)

lemma moving_average_eq:
  "moving_average W s =
     (if W = 0 \<or> priced_values s = [] then None
      else Some (sum_list (drop (length (priced_values s) - W) (priced_values s))
                 / of_nat (min W (length (priced_values s)))))"
proof -
  have "take W (rev (priced_values s)) = [] \<longleftrightarrow> W = 0 \<or> priced_values s = []"
    by (cases W; cases "rev (priced_values s)") auto
  then show ?thesis
    by (simp add: moving_average_def Let_def take_rev_sum min.commute del: take_eq_Nil)
qed

text \<open>
  Claim C7. For every series and every window \<open>W > 0\<close>, the moving average is the mean of
  the trailing \<open>W\<close> prices of the Observations that have one; when the series has fewer
  than \<open>W\<close> priced Observations it is the mean of all of them, and it is \<open>None\<close> exactly
  when the series has no priced Observation. The series \<open>[10, None, 12]\<close> has
  \<open>ma_3 = (10 + 12) / 2 = 11\<close>.
\<close>

theorem moving_average_window:
  assumes "0 < W"
  shows "(moving_average W s = None) = (priced_values s = [])
    \<and> moving_average 3
         [\<lparr>obs_date = 0, obs_price = Some 10\<rparr>, \<lparr>obs_date = 1, obs_price = None\<rparr>,
          \<lparr>obs_date = 2, obs_price = Some 12\<rparr>] = Some 11
    \<and> (W \<le> length (priced_values s) \<longrightarrow>
         moving_average W s =
           Some (sum_list (drop (length (priced_values s) - W) (priced_values s)) / of_nat W))
    \<and> (length (priced_values s) < W \<and> priced_values s \<noteq> [] \<longrightarrow>
         moving_average W s =
           Some (sum_list (priced_values s) / of_nat (length (priced_values s))))"
proof -
  have "moving_average 3
         [\<lparr>obs_date = 0, obs_price = Some 10\<rparr>, \<lparr>obs_date = 1, obs_price = None\<rparr>,
          \<lparr>obs_date = 2, obs_price = Some 12\<rparr>] = Some 11"
    by (simp add: moving_average_def priced_values_def List.map_filter_simps)
  with assms show ?thesis
    by (auto simp: moving_average_eq)
qed

theorem moving_average_window_witness:
  "moving_average 2
     [\<lparr>obs_date = 0, obs_price = Some 10\<rparr>, \<lparr>obs_date = 1, obs_price = None\<rparr>,
      \<lparr>obs_date = 2, obs_price = Some 12\<rparr>] = Some 11
   \<and> moving_average 1
     [\<lparr>obs_date = 0, obs_price = Some 10\<rparr>, \<lparr>obs_date = 1, obs_price = None\<rparr>,
      \<lparr>obs_date = 2, obs_price = Some 12\<rparr>] = Some 12"
  using moving_average_window [of 2 "[\<lparr>obs_date = 0, obs_price = Some 10\<rparr>,
      \<lparr>obs_date = 1, obs_price = None\<rparr>, \<lparr>obs_date = 2, obs_price = Some 12\<rparr>]"]
    moving_average_window [of 1 "[\<lparr>obs_date = 0, obs_price = Some 10\<rparr>,
      \<lparr>obs_date = 1, obs_price = None\<rparr>, \<lparr>obs_date = 2, obs_price = Some 12\<rparr>]"]
  by (simp add: priced_values_def List.map_filter_simps)


lemma find_Some_mem: "find P xs = Some x \<Longrightarrow> x \<in> set xs \<and> P x"
  by (induction xs) (auto split: if_splits)

lemma priced_values_mem: "ob \<in> set s \<Longrightarrow> obs_price ob = Some q \<Longrightarrow> priced_values s \<noteq> []"
  by (induction s) (auto simp: priced_values_def List.map_filter_simps split: option.splits)

lemma lookup_priced:
  assumes "lookup_date s d = Some ob" "obs_price ob = Some q"
  shows "latest_priced s \<noteq> None" "series_latest_date s \<noteq> None"
proof -
  from assms(1) have m: "ob \<in> set s"
    unfolding lookup_date_def by (rule find_Some_mem [THEN conjunct1])
  then show "latest_priced s \<noteq> None"
    using priced_values_mem [OF m assms(2)] by (simp add: latest_priced_def)
  from m show "series_latest_date s \<noteq> None"
    by (auto simp: series_latest_date_def)
qed

lemma pct_change_None:
  "(pct_change N s = None) =
     (case series_latest_date s of
        None \<Rightarrow> True
      | Some d \<Rightarrow>
          (case lookup_date s (d - int N) of
             None \<Rightarrow> True
           | Some ob \<Rightarrow> obs_price ob = None \<or> obs_price ob = Some 0))"
proof (cases "series_latest_date s")
  case None
  then show ?thesis by (simp add: pct_change_def split: option.splits)
next
  case (Some d)
  show ?thesis
  proof (cases "lookup_date s (d - int N)")
    case None
    with Some show ?thesis by (simp add: pct_change_def split: option.splits)
  next
    case ob: (Some ob)
    show ?thesis
    proof (cases "obs_price ob")
      case None
      with Some ob show ?thesis by (simp add: pct_change_def split: option.splits)
    next
      case q: (Some q)
      from lookup_priced(1) [OF ob q] obtain p where "latest_priced s = Some p" by auto
      with Some ob q show ?thesis by (simp add: pct_change_def)
    qed
  qed
qed

lemma latest_priced_last:
  assumes "s \<noteq> []" "obs_price (last s) = Some p"
  shows "latest_priced s = Some p"
proof -
  from assms(1) obtain xs x where s: "s = xs @ [x]"
    by (metis append_butlast_last_id)
  with assms(2) have "priced_values s = priced_values xs @ [p]"
    by (simp add: priced_values_def List.map_filter_def)
  then show ?thesis
    by (simp add: latest_priced_def)
qed

text \<open>
  Claim C6. For every series and every \<open>N\<close>, the percent change over \<open>N\<close> days, and so
  \<open>change_7d_pct\<close> with \<open>N = 7\<close> and \<open>change_30d_pct\<close> with \<open>N = 30\<close>, is \<open>None\<close> exactly
  when the Observation dated exactly \<open>N\<close> days before the latest date is missing, has a
  null price, or has the price zero. No other date stands in for a missing one: the
  series with the price 100 at day 0, nothing at day -7 and the price 98 at day -6 has
  no 7-day change. When the Observation of the latest date has a price, it is the latest
  priced Observation, and the change compares its price with the one found \<open>N\<close> days
  before it.
\<close>

theorem pct_change_exact_date:
  "(pct_change N s = None) =
     (case series_latest_date s of
        None \<Rightarrow> True
      | Some d \<Rightarrow>
          (case lookup_date s (d - int N) of
             None \<Rightarrow> True
           | Some ob \<Rightarrow> obs_price ob = None \<or> obs_price ob = Some 0))
   \<and> change_7d_pct s = pct_change 7 s
   \<and> change_30d_pct s = pct_change 30 s
   \<and> change_7d_pct
        [\<lparr>obs_date = - 6, obs_price = Some 98\<rparr>, \<lparr>obs_date = 0, obs_price = Some 100\<rparr>] = None
   \<and> (\<forall>p ob q. s \<noteq> [] \<and> obs_price (last s) = Some p
          \<and> lookup_date s (obs_date (last s) - int N) = Some ob
          \<and> obs_price ob = Some q \<and> q \<noteq> 0 \<longrightarrow>
          pct_change N s = Some ((p - q) / q * 100))"
proof -
  have pos: "pct_change N s = Some ((p - q) / q * 100)"
    if "s \<noteq> []" "obs_price (last s) = Some p"
      "lookup_date s (obs_date (last s) - int N) = Some ob" "obs_price ob = Some q" "q \<noteq> 0"
    for p ob q
    using that latest_priced_last [OF that(1,2)]
    by (simp add: pct_change_def series_latest_date_def)
  have "change_7d_pct
        [\<lparr>obs_date = - 6, obs_price = Some 98\<rparr>, \<lparr>obs_date = 0, obs_price = Some 100\<rparr>] = None"
    by (simp add: change_7d_pct_def pct_change_def latest_priced_def priced_values_def
        List.map_filter_simps series_latest_date_def lookup_date_def)
  with pct_change_None [of N s] pos show ?thesis
    unfolding change_7d_pct_def change_30d_pct_def by blast
qed

theorem pct_change_exact_date_witness:
  "pct_change 7
     [\<lparr>obs_date = - 7, obs_price = Some 80\<rparr>, \<lparr>obs_date = - 6, obs_price = Some 98\<rparr>,
      \<lparr>obs_date = 0, obs_price = Some 100\<rparr>] = Some 25
   \<and> pct_change 7
     [\<lparr>obs_date = - 7, obs_price = None\<rparr>, \<lparr>obs_date = - 6, obs_price = Some 98\<rparr>,
      \<lparr>obs_date = 0, obs_price = Some 100\<rparr>] = None
   \<and> pct_change 7
     [\<lparr>obs_date = - 7, obs_price = Some 0\<rparr>, \<lparr>obs_date = - 6, obs_price = Some 98\<rparr>,
      \<lparr>obs_date = 0, obs_price = Some 100\<rparr>] = None"
  using
    pct_change_exact_date [of 7 "[\<lparr>obs_date = - 7, obs_price = Some 80\<rparr>,
      \<lparr>obs_date = - 6, obs_price = Some 98\<rparr>, \<lparr>obs_date = 0, obs_price = Some 100\<rparr>]"]
    pct_change_exact_date [of 7 "[\<lparr>obs_date = - 7, obs_price = None\<rparr>,
      \<lparr>obs_date = - 6, obs_price = Some 98\<rparr>, \<lparr>obs_date = 0, obs_price = Some 100\<rparr>]"]
    pct_change_exact_date [of 7 "[\<lparr>obs_date = - 7, obs_price = Some 0\<rparr>,
      \<lparr>obs_date = - 6, obs_price = Some 98\<rparr>, \<lparr>obs_date = 0, obs_price = Some 100\<rparr>]"]
  by (simp add: series_latest_date_def lookup_date_def)

subsection \<open>The volatility buckets\<close>

text \<open>
  Claim C5. With enough priced points, a coefficient of variation of exactly 2.0% has
  the score Moderate, not Low; one of exactly 5.0% has the score High; one of exactly
  10.0% has the score Very High. Every value below 2% has the score Low.
\<close>

theorem volatility_boundaries:
  "min_points \<le> n \<Longrightarrow>
     volatility_score_of min_points n 2 = Moderate
     \<and> volatility_score_of min_points n 2 \<noteq> Low
     \<and> volatility_score_of min_points n 5 = High
     \<and> volatility_score_of min_points n 10 = VeryHigh
     \<and> (\<forall>cv. cv < 2 \<longrightarrow> volatility_score_of min_points n cv = Low)"
  by (simp add: volatility_score_of_def volatility_bucket_def)

theorem volatility_boundaries_witness:
  "(5::nat) \<le> 30
   \<and> volatility_score_of 5 30 2 = Moderate
   \<and> volatility_score_of 5 30 5 = High
   \<and> volatility_score_of 5 30 10 = VeryHigh
   \<and> volatility_score_of 5 30 (199 / 100) = Low"
  using volatility_boundaries [of 5 30] by simp

subsection \<open>The cross-region ranking\<close>

lemma rank_regions_sorted:
  "sorted (map (\<lambda>r. (rt_latest_price r, rt_region r)) (rank_regions rs))"
  by (simp add: rank_regions_def)

lemma rank_regions_nth_mono:
  assumes "i \<le> j" "j < length rs"
  shows "rt_latest_price (rank_regions rs ! i) \<le> rt_latest_price (rank_regions rs ! j)"
proof -
  let ?k = "\<lambda>r. (rt_latest_price r, rt_region r)"
  have len: "length (rank_regions rs) = length rs"
    by (simp add: rank_regions_def)
  have "map ?k (rank_regions rs) ! i \<le> map ?k (rank_regions rs) ! j"
    using rank_regions_sorted assms len by (intro sorted_nth_mono) simp_all
  then have "?k (rank_regions rs ! i) \<le> ?k (rank_regions rs ! j)"
    using assms len by simp
  then show ?thesis
    by (auto simp: less_eq_prod_def)
qed

lemma rank_regions_pairs:
  "sorted_wrt (\<lambda>a b. rt_latest_price a < rt_latest_price b
                    \<or> (rt_latest_price a = rt_latest_price b \<and> rt_region a \<le> rt_region b))
     (rank_regions rs)"
proof -
  have "sorted_wrt (\<lambda>a b. (rt_latest_price a, rt_region a) \<le> (rt_latest_price b, rt_region b))
     (rank_regions rs)"
    using rank_regions_sorted [of rs] by (simp add: sorted_wrt_map)
  then show ?thesis
    by (rule sorted_wrt_mono_rel [rotated]) (auto simp: less_eq_prod_def)
qed

text \<open>
  Claim C3. For every commodity of the cross-region comparison, the ranked list holds
  the regions that carry it, ascending by latest price, regions of equal price in the
  lexical order of their names: the regions A at 50, B at 40 and C at 40 rank as
  \<open>[B, C, A]\<close>. The first entry of the ranked list, the row the table marks as cheapest,
  has the lowest price, and the last entry, the row it marks as most expensive, has the
  highest.
\<close>

theorem rank_regions_order:
  "set (rank_regions rs) = set rs \<and> length (rank_regions rs) = length rs
   \<and> sorted_wrt (\<lambda>a b. rt_latest_price a < rt_latest_price b
                    \<or> (rt_latest_price a = rt_latest_price b \<and> rt_region a \<le> rt_region b))
        (rank_regions rs)
   \<and> map rt_region (rank_regions [trend_of ''A'' 50, trend_of ''B'' 40, trend_of ''C'' 40])
        = [''B'', ''C'', ''A'']
   \<and> (\<forall>i < length rs. \<forall>r \<in> set rs.
         (isCheapest i \<longrightarrow> rt_latest_price (rank_regions rs ! i) \<le> rt_latest_price r)
         \<and> (isMostExpensive (rank_regions rs) i \<longrightarrow>
              rt_latest_price r \<le> rt_latest_price (rank_regions rs ! i)))"
proof -
  have len: "length (rank_regions rs) = length rs" and st: "set (rank_regions rs) = set rs"
    by (simp_all add: rank_regions_def)
  have ex: "map rt_region (rank_regions [trend_of ''A'' 50, trend_of ''B'' 40, trend_of ''C'' 40])
        = [''B'', ''C'', ''A'']"
    by (simp add: rank_regions_def trend_of_def)
  have ends: "(isCheapest i \<longrightarrow> rt_latest_price (rank_regions rs ! i) \<le> rt_latest_price r)
         \<and> (isMostExpensive (rank_regions rs) i \<longrightarrow>
              rt_latest_price r \<le> rt_latest_price (rank_regions rs ! i))"
    if i: "i < length rs" and r: "r \<in> set rs" for i r
  proof -
    from r st obtain j where j: "j < length rs" "rank_regions rs ! j = r"
      using len by (metis in_set_conv_nth)
    have "rt_latest_price (rank_regions rs ! 0) \<le> rt_latest_price r"
      using rank_regions_nth_mono [of 0 j rs] j by simp
    moreover have "rt_latest_price r \<le> rt_latest_price (rank_regions rs ! (length rs - 1))"
      using rank_regions_nth_mono [of j "length rs - 1" rs] j by simp
    moreover have "i = length rs - 1" if "isMostExpensive (rank_regions rs) i"
      using that len by (simp add: isMostExpensive_def)
    ultimately show ?thesis
      by (auto simp: isCheapest_def)
  qed
  from len st rank_regions_pairs [of rs] ex ends show ?thesis
    by blast
qed

theorem rank_regions_order_witness:
  "map rt_region (rank_regions [trend_of ''C'' 40, trend_of ''A'' 50, trend_of ''B'' 40])
     = [''B'', ''C'', ''A'']
   \<and> isCheapest 0
   \<and> isMostExpensive (rank_regions [trend_of ''C'' 40, trend_of ''A'' 50, trend_of ''B'' 40]) 2
   \<and> rt_latest_price (rank_regions [trend_of ''C'' 40, trend_of ''A'' 50, trend_of ''B'' 40] ! 0) = 40
   \<and> rt_latest_price (rank_regions [trend_of ''C'' 40, trend_of ''A'' 50, trend_of ''B'' 40] ! 2) = 50"
  using rank_regions_order [of "[trend_of ''C'' 40, trend_of ''A'' 50, trend_of ''B'' 40]"]
  by (simp add: rank_regions_def trend_of_def isCheapest_def isMostExpensive_def)



end
